theory Spec2Isabelle
  imports Complex_Main "HOL-Library.Multiset" "HOL-Library.Log_Nat"
begin

section \<open>Data model\<close>

text \<open>
  The program is \<^verbatim>\<open>src/index.js\<close>: \<^verbatim>\<open>carve\<close> repeats \<^verbatim>\<open>carveSeam\<close>, which builds an
  energy matrix (\<^verbatim>\<open>getEnergyMatrix\<close>), searches a seam through it (\<^verbatim>\<open>pathfind\<close>) and
  splices the seam's pixels out of the image buffer.

  JavaScript numbers that the code only ever uses as array indices are \<open>nat\<close>; energies
  and distances are \<open>int\<close> (sums of integer samples). The code adds them as doubles: its
  sums are these integers as long as they stay below \<open>2 ^ 53\<close>, and are rounded beyond, where
  the model's are not. A value that is not a number in
  the source (\<^verbatim>\<open>undefined\<close> read past the end of an array, and the \<^verbatim>\<open>NaN\<close> that
  arithmetic on it gives) is \<open>None\<close> in an \<open>int option\<close>.
\<close>

datatype error = TypeError | RangeError

type_synonym coords = "nat \<times> nat"

text \<open>An energy matrix: rows of cells, a cell being a number or \<^verbatim>\<open>NaN\<close> (\<open>None\<close>).\<close>

type_synonym matrix = "int option list list"

text \<open>A queue entry \<^verbatim>\<open>{row, col, distance}\<close>.\<close>

record node =
  row :: nat
  col :: nat
  distance :: int

text \<open>
  The arrays of \<^verbatim>\<open>pathfind\<close> and its queue. In \<open>distances\<close>, \<open>None\<close> is the
  initial \<^verbatim>\<open>Infinity\<close>; in \<open>previous\<close>, \<open>None\<close> is \<^verbatim>\<open>null\<close>.
\<close>

record search =
  distances :: "int option list list"
  visited :: "bool list list"
  previous :: "coords option list list"
  queue :: "node list"

text \<open>The fields of \<^verbatim>\<open>IJS.Image\<close> that the code reads and writes.\<close>

record image =
  data :: "nat list"
  width :: int
  height :: int

section \<open>Array helpers\<close>

text \<open>\<^verbatim>\<open>a[r][c] = v\<close> on an array of arrays, for an index inside the arrays.\<close>

definition set2 :: "'a list list \<Rightarrow> nat \<Rightarrow> nat \<Rightarrow> 'a \<Rightarrow> 'a list list" where
  "set2 a r c v = a[r := (a ! r)[c := v]]"

text \<open>
  \<^verbatim>\<open>matrix[r][c]\<close> as a number: a read past the end of a row is \<^verbatim>\<open>undefined\<close>, which
  every later addition turns into \<^verbatim>\<open>NaN\<close>.
\<close>

definition cell :: "matrix \<Rightarrow> nat \<Rightarrow> nat \<Rightarrow> int option" where
  "cell m r c = (if r < length m \<and> c < length (m ! r) then m ! r ! c else None)"

text \<open>\<^verbatim>\<open>newDistance < distances[newRow][newCol]\<close>, where the right side may be \<^verbatim>\<open>Infinity\<close>.\<close>

definition below :: "int \<Rightarrow> int option \<Rightarrow> bool" where
  "below d x = (case x of None \<Rightarrow> True | Some y \<Rightarrow> d < y)"

section \<open>pathfind\<close>

text \<open>
  The body of \<^verbatim>\<open>for (let j = -1; j <= 1; j++)\<close> for one \<open>j\<close>, at the popped entry \<open>e\<close>.
  \<^verbatim>\<open>newRow < 0\<close> cannot hold and is left out; a cell that is \<^verbatim>\<open>NaN\<close> makes
  \<^verbatim>\<open>newDistance\<close> \<^verbatim>\<open>NaN\<close>, and the comparison false. \<^verbatim>\<open>newDistance\<close> is the sum over the
  integers: the double that \<^verbatim>\<open>distance + matrix[newRow][newCol]\<close> gives when the sum is below
  \<open>2 ^ 53\<close>. A statement about distances holds of the code on the grids that keep them there.
\<close>

definition relax :: "matrix \<Rightarrow> nat \<Rightarrow> nat \<Rightarrow> node \<Rightarrow> int \<Rightarrow> search \<Rightarrow> search" where
  "relax m rows cols e j s =
     (if j = 0 then s
      else
        let newRow = row e + 1; newCol = int (col e) + j in
        if newRow \<ge> rows \<or> newCol < 0 \<or> newCol \<ge> int cols then s
        else
          (case cell m newRow (nat newCol) of
             None \<Rightarrow> s
           | Some en \<Rightarrow>
               let newDistance = distance e + en in
               if below newDistance (distances s ! newRow ! nat newCol) then
                 s\<lparr>distances := set2 (distances s) newRow (nat newCol) (Some newDistance),
                   previous := set2 (previous s) newRow (nat newCol) (Some (row e, col e)),
                   queue := queue s @ [\<lparr>row = newRow, col = nat newCol, distance = newDistance\<rparr>]\<rparr>
               else s))"

definition neighbours :: "matrix \<Rightarrow> nat \<Rightarrow> nat \<Rightarrow> node \<Rightarrow> search \<Rightarrow> search" where
  "neighbours m rows cols e s = fold (relax m rows cols e) [-1, 0, 1] s"

text \<open>
  The inner loop \<^verbatim>\<open>while (current) { path.unshift(...); current = previous[...] }\<close>.
  Nothing in the loop itself bounds it, so it is a partial function: \<open>None\<close> is a walk
  that never reaches \<^verbatim>\<open>null\<close>.
\<close>

partial_function (option) trace_back ::
  "coords option list list \<Rightarrow> coords option \<Rightarrow> coords list \<Rightarrow> coords list option" where
  "trace_back prev current path =
     (case current of
        None \<Rightarrow> Some path
      | Some rc \<Rightarrow> trace_back prev (prev ! fst rc ! snd rc) (rc # path))"

text \<open>The weight of a queue entry \<open>n\<close> rows above the last one, for the termination proof.\<close>

fun weight :: "nat \<Rightarrow> nat" where
  "weight 0 = 1"
| "weight (Suc n) = 2 * weight n + 1"

definition load :: "nat \<Rightarrow> node list \<Rightarrow> nat" where
  "load rows q = sum_list (map (\<lambda>e. weight (rows - row e)) q)"

lemma load_append: "load rows (q @ q') = load rows q + load rows q'"
  by (simp add: load_def)

lemma load_sort: "load rows (sort_key distance q) = load rows q"
proof -
  have "mset (map (\<lambda>e. weight (rows - row e)) (sort_key distance q))
      = mset (map (\<lambda>e. weight (rows - row e)) q)"
    by simp
  then show ?thesis
    unfolding load_def by (metis sum_mset_sum_list)
qed

lemma weight_pos: "0 < weight n"
  by (induction n) simp_all

lemma load_pop:
  assumes "queue s \<noteq> []"
  shows "load rows (tl (sort_key distance (queue s))) + weight (rows - row (hd (sort_key distance (queue s))))
           = load rows (queue s)"
proof -
  have "sort_key distance (queue s) \<noteq> []"
    using assms by (metis length_sort list.size(3) length_0_conv)
  then obtain e q where eq: "sort_key distance (queue s) = e # q"
    by (cases "sort_key distance (queue s)") auto
  have "load rows (e # q) = load rows (queue s)"
    using load_sort [of rows "queue s"] eq by simp
  then show ?thesis
    using eq by (simp add: load_def)
qed

lemma load_relax:
  "load rows (queue (relax m rows cols e j s)) + weight (rows - Suc (row e)) * (if j = 0 \<or> rows \<le> Suc (row e) then 1 else 0)
     \<le> load rows (queue s) + weight (rows - Suc (row e))"
  by (simp add: relax_def Let_def load_append load_def split: option.splits)

lemma load_neighbours:
  "load rows (queue (neighbours m rows cols e s)) < load rows (queue s) + weight (rows - row e)"
proof (cases "rows \<le> Suc (row e)")
  case True
  then have "queue (neighbours m rows cols e s) = queue s"
    by (simp add: neighbours_def relax_def)
  then show ?thesis by (simp add: weight_pos)
next
  case False
  then obtain k where k: "rows - row e = Suc k" "rows - Suc (row e) = k"
    by (metis Suc_diff_Suc not_less_eq_eq not_le Suc_leD)
  let ?s1 = "relax m rows cols e (-1) s"
  let ?s2 = "relax m rows cols e 0 ?s1"
  let ?s3 = "relax m rows cols e 1 ?s2"
  have 1: "load rows (queue ?s1) \<le> load rows (queue s) + weight k"
    using load_relax [of rows m cols e "-1" s] False k by simp
  have 2: "queue ?s2 = queue ?s1" by (simp add: relax_def)
  have 3: "load rows (queue ?s3) \<le> load rows (queue ?s2) + weight k"
    using load_relax [of rows m cols e 1 ?s2] False k by simp
  have "neighbours m rows cols e s = ?s3" by (simp add: neighbours_def)
  then show ?thesis using 1 2 3 k by simp
qed

text \<open>
  The loop \<^verbatim>\<open>while (queue.length)\<close> of \<^verbatim>\<open>pathfind\<close>, from the state \<open>s\<close>. The sort is stable, as
  \<^verbatim>\<open>Array.prototype.sort\<close> is, and \<^verbatim>\<open>queue.shift()\<close> takes the head of the sorted queue.
  \<^verbatim>\<open>row === rows - 1\<close> is \<open>Suc (row e) = rows\<close>. The result is \<open>Some None\<close> when the queue empties
  (the function returns \<^verbatim>\<open>undefined\<close>), \<open>Some (Some path)\<close> when a path is returned, and \<open>None\<close>
  when the walk back never ends. Every queue entry lies inside the arrays (\<open>inv_struct\<close> below),
  so every read and write of the loop is inside the arrays.
\<close>

function pathfind_loop :: "matrix \<Rightarrow> nat \<Rightarrow> nat \<Rightarrow> search \<Rightarrow> coords list option option" where
  "pathfind_loop m rows cols s =
     (if queue s = [] then Some None
      else
        let sorted_queue = sort_key distance (queue s);
            e = hd sorted_queue;
            s1 = s\<lparr>queue := tl sorted_queue\<rparr>
        in
        if visited s1 ! row e ! col e then pathfind_loop m rows cols s1
        else
          let s2 = s1\<lparr>visited := set2 (visited s1) (row e) (col e) True\<rparr> in
          if Suc (row e) = rows then
            map_option Some (trace_back (previous s2) (previous s2 ! row e ! col e) [(row e, col e)])
          else pathfind_loop m rows cols (neighbours m rows cols e s2))"
  by pat_completeness auto
termination
proof (relation "measure (\<lambda>(m, rows, cols, s). load rows (queue s))")
  show "wf (measure (\<lambda>(m, rows, cols, s). load rows (queue s)))" by simp
next
  fix m :: matrix and rows cols :: nat and s :: search and x xa xb
  assume "queue s \<noteq> []" and "x = sort_key distance (queue s)" and "xa = hd x"
    and "xb = s\<lparr>queue := tl x\<rparr>"
  then show "((m, rows, cols, xb), (m, rows, cols, s)) \<in> measure (\<lambda>(m, rows, cols, s). load rows (queue s))"
    using load_pop [of s rows] weight_pos [of "rows - row xa"] by simp
next
  fix m :: matrix and rows cols :: nat and s :: search and x xa xb xc
  assume "queue s \<noteq> []" and "x = sort_key distance (queue s)" and "xa = hd x"
    and "xb = s\<lparr>queue := tl x\<rparr>" and "xc = xb\<lparr>visited := set2 (visited xb) (row xa) (col xa) True\<rparr>"
  then show "((m, rows, cols, neighbours m rows cols xa xc), (m, rows, cols, s)) \<in> measure (\<lambda>(m, rows, cols, s). load rows (queue s))"
    using load_pop [of s rows] load_neighbours [of rows m cols xa xc] by simp
qed

declare trace_back.simps [code]

declare pathfind_loop.simps [simp del]

text \<open>
  \<^verbatim>\<open>pathfind(matrix)\<close>. The result is \<open>None\<close> when the walk back along \<open>previous\<close> never
  ends, \<open>Some (Inl TypeError)\<close> when \<^verbatim>\<open>matrix[0].length\<close> reads a property of
  \<^verbatim>\<open>undefined\<close> (an empty matrix), \<open>Some (Inr None)\<close> when the queue empties and the
  function falls off its end (it returns \<^verbatim>\<open>undefined\<close>), and \<open>Some (Inr (Some path))\<close>
  when it returns a path.

  When the start cell is not a number (the first row is empty, or the cell is \<^verbatim>\<open>NaN\<close>),
  the only queue entry has a \<^verbatim>\<open>NaN\<close> distance: it is popped and marked; with one row it
  is the path; with more rows every \<^verbatim>\<open>newDistance\<close> is \<^verbatim>\<open>NaN\<close>, nothing is pushed and the
  queue empties.
\<close>

definition pathfind :: "matrix \<Rightarrow> (error + coords list option) option" where
  "pathfind m =
     (if m = [] then Some (Inl TypeError)
      else
        let rows = length m;
            cols = length (m ! 0);
            startRow = 0;
            startCol = cols div 2
        in
        (case cell m startRow startCol of
           None \<Rightarrow> Some (Inr (if rows = 1 then Some [(startRow, startCol)] else None))
         | Some d0 \<Rightarrow>
             map_option Inr
               (pathfind_loop m rows cols
                  \<lparr>distances = set2 (replicate rows (replicate cols None)) startRow startCol (Some d0),
                   visited = replicate rows (replicate cols False),
                   previous = replicate rows (replicate cols None),
                   queue = [\<lparr>row = startRow, col = startCol, distance = d0\<rparr>]\<rparr>)))"

section \<open>getEnergyMatrix\<close>

text \<open>\<^verbatim>\<open>sobelData[i]\<close>: \<^verbatim>\<open>undefined\<close> outside the buffer.\<close>

definition sample :: "int list \<Rightarrow> int \<Rightarrow> int option" where
  "sample d i = (if 0 \<le> i \<and> i < int (length d) then Some (d ! nat i) else None)"

text \<open>\<^verbatim>\<open>+\<close> on numbers that may be \<^verbatim>\<open>undefined\<close> or \<^verbatim>\<open>NaN\<close>.\<close>

definition plus_num :: "int option \<Rightarrow> int option \<Rightarrow> int option" where
  "plus_num a b = (case (a, b) of (Some x, Some y) \<Rightarrow> Some (x + y) | _ \<Rightarrow> None)"

text \<open>The body of the two nested \<^verbatim>\<open>for\<close> loops: the assignment to \<^verbatim>\<open>matrix[y][x]\<close>.\<close>

definition energy_at :: "int list \<Rightarrow> int \<Rightarrow> nat \<Rightarrow> nat \<Rightarrow> int option" where
  "energy_at sobelData w y x =
     (let vOffset = int y * w * 4;
          hOffset = int x * 4;
          offset = vOffset + hOffset
      in plus_num (plus_num (sample sobelData offset) (sample sobelData (offset + 1)))
           (sample sobelData (offset + 2)))"

text \<open>
  \<^verbatim>\<open>getEnergyMatrix(image)\<close>. The Sobel filter is the image library's: it is a parameter,
  a function from the image to the filtered image's data. \<^verbatim>\<open>Array(n)\<close> throws a
  \<^verbatim>\<open>RangeError\<close> for a negative \<open>n\<close>; \<^verbatim>\<open>Array(image.width)\<close> is evaluated once per row.
\<close>

definition getEnergyMatrix :: "(image \<Rightarrow> int list) \<Rightarrow> image \<Rightarrow> error + matrix" where
  "getEnergyMatrix sobelFilter img =
     (let sobelData = sobelFilter img in
      if height img < 0 \<or> (0 < height img \<and> width img < 0) then Inl RangeError
      else
        let h = nat (height img);
            w = nat (width img);
            matrix = replicate h (replicate w (Some 0))
        in
        Inr (fold (\<lambda>y mat. fold (\<lambda>x mat. set2 mat y x (energy_at sobelData (width img) y x)) [0..<w] mat)
               [0..<h] matrix))"

section \<open>carveSeam\<close>

text \<open>
  \<^verbatim>\<open>xs.splice(start, deleteCount)\<close>, for its effect on \<open>xs\<close>: a negative \<open>start\<close> counts
  from the end, a \<open>start\<close> past the end removes nothing, and no more is removed than
  there is.
\<close>

definition splice :: "'a list \<Rightarrow> int \<Rightarrow> nat \<Rightarrow> 'a list" where
  "splice xs start deleteCount =
     (let len = int (length xs);
          from = nat (if start < 0 then max (len + start) 0 else min start len)
      in take from xs @ drop (from + deleteCount) xs)"

text \<open>The loop \<^verbatim>\<open>for (let i = path.length - 1; i >= 0; i--)\<close> of \<^verbatim>\<open>carveSeam\<close>.\<close>

definition carve_path :: "int \<Rightarrow> coords list \<Rightarrow> nat list \<Rightarrow> nat list" where
  "carve_path w path newData =
     fold (\<lambda>coords newData.
             let vOffset = int (fst coords) * w * 4;
                 hOffset = int (snd coords) * 4;
                 offset = vOffset + hOffset
             in splice newData offset 4)
       (rev path) newData"

text \<open>How a call ended: it returned, or it threw.\<close>

datatype ending = Returned | Threw error

text \<open>
  \<^verbatim>\<open>carveSeam(image)\<close> mutates the caller's image and returns that same object. The model
  returns how the call ended together with the image as the call leaves it. \<open>None\<close> is a
  call that never ends. When \<^verbatim>\<open>pathfind\<close> returns \<^verbatim>\<open>undefined\<close>, \<^verbatim>\<open>path.length\<close> throws a
  \<^verbatim>\<open>TypeError\<close> before the assignments to \<^verbatim>\<open>image.data\<close> and \<^verbatim>\<open>image.width\<close>.
\<close>

definition carveSeam :: "(image \<Rightarrow> int list) \<Rightarrow> image \<Rightarrow> (ending \<times> image) option" where
  "carveSeam sobelFilter img =
     (case getEnergyMatrix sobelFilter img of
        Inl err \<Rightarrow> Some (Threw err, img)
      | Inr energyMap \<Rightarrow>
          (case pathfind energyMap of
             None \<Rightarrow> None
           | Some (Inl err) \<Rightarrow> Some (Threw err, img)
           | Some (Inr None) \<Rightarrow> Some (Threw TypeError, img)
           | Some (Inr (Some path)) \<Rightarrow>
               let newData = carve_path (width img) path (data img) in
               Some (Returned, img\<lparr>data := newData, width := width img - 1\<rparr>)))"

section \<open>Reasoning about the search loop\<close>

text \<open>Reading an array of arrays at a pair of coordinates, and an array's shape.\<close>

definition get2 :: "'a list list \<Rightarrow> coords \<Rightarrow> 'a" where
  "get2 a x = a ! fst x ! snd x"

definition shape :: "nat \<Rightarrow> nat \<Rightarrow> 'a list list \<Rightarrow> bool" where
  "shape rows cols a = (length a = rows \<and> (\<forall>r<rows. length (a ! r) = cols))"

definition inb :: "nat \<Rightarrow> nat \<Rightarrow> coords \<Rightarrow> bool" where
  "inb rows cols x = (fst x < rows \<and> snd x < cols)"

definition pos :: "node \<Rightarrow> coords" where
  "pos e = (row e, col e)"

lemma shape_set2: "shape rows cols a \<Longrightarrow> shape rows cols (set2 a r c v)"
  by (cases "r < length a") (auto simp: shape_def set2_def nth_list_update)

lemma get2_set2:
  assumes "shape rows cols a" and "r < rows" and "c < cols"
  shows "get2 (set2 a r c v) y = (if y = (r, c) then v else get2 a y)"
proof (cases "fst y = r")
  case True
  then show ?thesis
    using assms by (cases y) (auto simp: get2_def set2_def shape_def nth_list_update)
next
  case False
  then show ?thesis
    by (cases y) (auto simp: get2_def set2_def)
qed

lemma shape_replicate: "shape rows cols (replicate rows (replicate cols v))"
  by (simp add: shape_def)

lemma get2_replicate: "inb rows cols x \<Longrightarrow> get2 (replicate rows (replicate cols v)) x = v"
  by (simp add: get2_def inb_def)

text \<open>The queue entry that an iteration pops, and the queue it leaves.\<close>

definition front :: "search \<Rightarrow> node" where
  "front s = hd (sort_key distance (queue s))"

definition popped :: "search \<Rightarrow> search" where
  "popped s = s\<lparr>queue := tl (sort_key distance (queue s))\<rparr>"

definition marked :: "search \<Rightarrow> search" where
  "marked s = (popped s)\<lparr>visited := set2 (visited s) (row (front s)) (col (front s)) True\<rparr>"

lemma pathfind_loop_unfold:
  "pathfind_loop m rows cols s =
     (if queue s = [] then Some None
      else if get2 (visited s) (pos (front s)) then pathfind_loop m rows cols (popped s)
      else if Suc (row (front s)) = rows then
        map_option Some (trace_back (previous s) (get2 (previous s) (pos (front s))) [pos (front s)])
      else pathfind_loop m rows cols (neighbours m rows cols (front s) (marked s)))"
  by (subst pathfind_loop.simps) (simp add: Let_def front_def popped_def marked_def get2_def pos_def)

text \<open>
  The proof rule of the loop: an invariant \<open>I\<close> of the iterations that do not return
  gives \<open>Q\<close> of the result, when \<open>Q\<close> holds where the loop returns.
\<close>

lemma pathfind_loop_rule:
  assumes init: "I s"
    and skip: "\<And>s. I s \<Longrightarrow> queue s \<noteq> [] \<Longrightarrow> get2 (visited s) (pos (front s)) \<Longrightarrow> I (popped s)"
    and step: "\<And>s. I s \<Longrightarrow> queue s \<noteq> [] \<Longrightarrow> \<not> get2 (visited s) (pos (front s)) \<Longrightarrow>
                 Suc (row (front s)) \<noteq> rows \<Longrightarrow> I (neighbours m rows cols (front s) (marked s))"
    and found: "\<And>s. I s \<Longrightarrow> queue s \<noteq> [] \<Longrightarrow> \<not> get2 (visited s) (pos (front s)) \<Longrightarrow>
                 Suc (row (front s)) = rows \<Longrightarrow>
                 Q (map_option Some (trace_back (previous s) (get2 (previous s) (pos (front s))) [pos (front s)]))"
    and empty: "\<And>s. I s \<Longrightarrow> queue s = [] \<Longrightarrow> Q (Some None)"
  shows "Q (pathfind_loop m rows cols s)"
  using init
proof (induction "load rows (queue s)" arbitrary: s rule: less_induct)
  case less
  show ?case
  proof (cases "queue s = []")
    case True
    then show ?thesis
      using empty [OF less.prems] by (subst pathfind_loop_unfold) simp
  next
    case ne: False
    have pop: "load rows (queue (popped s)) < load rows (queue s)"
      using load_pop [OF ne, of rows] weight_pos [of "rows - row (front s)"]
      by (simp add: popped_def front_def)
    show ?thesis
    proof (cases "get2 (visited s) (pos (front s))")
      case True
      have "Q (pathfind_loop m rows cols (popped s))"
        using less.hyps [OF pop] skip [OF less.prems ne True] by simp
      then show ?thesis
        using ne True by (subst pathfind_loop_unfold) simp
    next
      case nv: False
      show ?thesis
      proof (cases "Suc (row (front s)) = rows")
        case True
        then show ?thesis
          using found [OF less.prems ne nv True] ne nv by (subst pathfind_loop_unfold) simp
      next
        case False
        have "load rows (queue (neighbours m rows cols (front s) (marked s))) < load rows (queue s)"
          using load_neighbours [of rows m cols "front s" "marked s"] load_pop [OF ne, of rows]
          by (simp add: marked_def popped_def front_def)
        then have "Q (pathfind_loop m rows cols (neighbours m rows cols (front s) (marked s)))"
          using less.hyps step [OF less.prems ne nv False] by simp
        then show ?thesis
          using ne nv False by (subst pathfind_loop_unfold) simp
      qed
    qed
  qed
qed

lemma front_in_queue: "queue s \<noteq> [] \<Longrightarrow> front s \<in> set (queue s)"
proof -
  assume "queue s \<noteq> []"
  then have "sort_key distance (queue s) \<noteq> []"
    by (metis length_sort length_0_conv)
  then have "hd (sort_key distance (queue s)) \<in> set (sort_key distance (queue s))"
    by (rule hd_in_set)
  then show ?thesis by (simp add: front_def)
qed

lemma popped_subset: "set (queue (popped s)) \<subseteq> set (queue s)"
proof -
  have "set (tl (sort_key distance (queue s))) \<subseteq> set (sort_key distance (queue s))"
    by (cases "sort_key distance (queue s)") auto
  then show ?thesis by (simp add: popped_def)
qed

lemma queue_split: "queue s \<noteq> [] \<Longrightarrow> set (queue s) = insert (front s) (set (queue (popped s)))"
proof -
  assume "queue s \<noteq> []"
  then have ne: "sort_key distance (queue s) \<noteq> []"
    by (metis length_sort length_0_conv)
  have "set (queue s) = set (sort_key distance (queue s))" by simp
  also have "\<dots> = insert (front s) (set (queue (popped s)))"
    using ne by (cases "sort_key distance (queue s)") (auto simp: front_def popped_def)
  finally show ?thesis .
qed

lemma front_least: "e \<in> set (queue s) \<Longrightarrow> distance (front s) \<le> distance e"
proof -
  assume e: "e \<in> set (queue s)"
  then have ne: "sort_key distance (queue s) \<noteq> []"
    by (metis length_sort length_0_conv empty_iff list.set(1))
  have srt: "sorted (map distance (sort_key distance (queue s)))"
    by (rule sorted_sort_key)
  obtain x xs where xs: "sort_key distance (queue s) = x # xs"
    using ne by (cases "sort_key distance (queue s)") auto
  have "e \<in> set (x # xs)" using e xs by (metis set_sort)
  then show ?thesis
    using srt xs by (auto simp: front_def)
qed

lemma popped_fields [simp]:
  "distances (popped s) = distances s" "visited (popped s) = visited s"
  "previous (popped s) = previous s"
  by (simp_all add: popped_def)

lemma marked_fields [simp]:
  "distances (marked s) = distances s" "previous (marked s) = previous s"
  "queue (marked s) = queue (popped s)"
  by (simp_all add: marked_def popped_def)

lemma visited_marked:
  "visited (marked s) = set2 (visited s) (row (front s)) (col (front s)) True"
  by (simp add: marked_def popped_def)

text \<open>One neighbour's relaxation, at column \<open>c\<close> of the row below the popped entry.\<close>

definition relax_to :: "matrix \<Rightarrow> node \<Rightarrow> nat \<Rightarrow> search \<Rightarrow> search" where
  "relax_to m e c s =
     (case cell m (Suc (row e)) c of
        None \<Rightarrow> s
      | Some en \<Rightarrow>
          if below (distance e + en) (get2 (distances s) (Suc (row e), c)) then
            s\<lparr>distances := set2 (distances s) (Suc (row e)) c (Some (distance e + en)),
              previous := set2 (previous s) (Suc (row e)) c (Some (pos e)),
              queue := queue s @ [\<lparr>row = Suc (row e), col = c, distance = distance e + en\<rparr>]\<rparr>
          else s)"

lemma relax_eq:
  "relax m rows cols e j s =
     (if j = 0 \<or> rows \<le> Suc (row e) \<or> int (col e) + j < 0 \<or> int cols \<le> int (col e) + j then s
      else relax_to m e (nat (int (col e) + j)) s)"
  by (simp add: relax_def relax_to_def Let_def get2_def pos_def split: option.splits)

lemma neighbours_eq:
  "neighbours m rows cols e s =
     (if rows \<le> Suc (row e) then s
      else
        let s' = (if 0 < col e \<and> col e \<le> cols then relax_to m e (col e - 1) s else s)
        in if Suc (col e) < cols then relax_to m e (Suc (col e)) s' else s')"
proof -
  have l: "nat (int (col e) + - 1) = col e - 1" by simp
  have r: "nat (int (col e) + 1) = Suc (col e)" by simp
  show ?thesis
    unfolding neighbours_def fold_simps relax_eq l r Let_def
    by (auto simp: relax_eq)
qed

text \<open>
  A property that every relaxation from \<open>e\<close> to a diagonal neighbour inside the matrix
  keeps is kept by the loop over \<open>j\<close>.
\<close>

lemma neighbours_rule:
  assumes "P s"
    and "\<And>c s'. P s' \<Longrightarrow> Suc (row e) < rows \<Longrightarrow> c < cols \<Longrightarrow> c = Suc (col e) \<or> col e = Suc c \<Longrightarrow>
           P (relax_to m e c s')"
  shows "P (neighbours m rows cols e s)"
proof (cases "rows \<le> Suc (row e)")
  case True
  then show ?thesis using assms(1) by (simp add: neighbours_eq)
next
  case False
  then have lt: "Suc (row e) < rows" by simp
  define s' where "s' = (if 0 < col e \<and> col e \<le> cols then relax_to m e (col e - 1) s else s)"
  have "P s'"
    unfolding s'_def using assms(1) assms(2) [OF assms(1) lt, of "col e - 1"] by auto
  then have "P (if Suc (col e) < cols then relax_to m e (Suc (col e)) s' else s')"
    using assms(2) [OF _ lt, of s' "Suc (col e)"] by auto
  moreover have "neighbours m rows cols e s =
      (if Suc (col e) < cols then relax_to m e (Suc (col e)) s' else s')"
    using False by (simp add: neighbours_eq s'_def Let_def)
  ultimately show ?thesis by (simp only:)
qed

section \<open>The structure of the predecessor links\<close>

text \<open>\<open>link y x\<close>: the cell \<open>x\<close> is one row below \<open>y\<close>, one column to its left or right.\<close>

definition link :: "coords \<Rightarrow> coords \<Rightarrow> bool" where
  "link y x = (fst x = Suc (fst y) \<and> (snd x = Suc (snd y) \<or> snd y = Suc (snd x)))"

text \<open>A cell from which the walk back can go on: the start cell, or a cell with a predecessor.\<close>

definition rooted :: "nat \<Rightarrow> coords option list list \<Rightarrow> coords \<Rightarrow> bool" where
  "rooted cols prev x = (if fst x = 0 then snd x = cols div 2 else get2 prev x \<noteq> None)"

definition inv_struct :: "nat \<Rightarrow> nat \<Rightarrow> search \<Rightarrow> bool" where
  "inv_struct rows cols s =
     (shape rows cols (distances s) \<and> shape rows cols (visited s) \<and> shape rows cols (previous s) \<and>
      (\<forall>e\<in>set (queue s). inb rows cols (pos e) \<and> rooted cols (previous s) (pos e)) \<and>
      (\<forall>x y. inb rows cols x \<and> get2 (previous s) x = Some y \<longrightarrow>
         link y x \<and> snd y < cols \<and> rooted cols (previous s) y))"

lemma inv_struct_popped: "inv_struct rows cols s \<Longrightarrow> inv_struct rows cols (popped s)"
  using popped_subset [of s] by (auto simp: inv_struct_def)

lemma inv_struct_marked: "inv_struct rows cols s \<Longrightarrow> inv_struct rows cols (marked s)"
  using popped_subset [of s] by (auto simp: inv_struct_def shape_set2 visited_marked)

lemma inv_struct_front:
  "inv_struct rows cols s \<Longrightarrow> queue s \<noteq> [] \<Longrightarrow>
     inb rows cols (pos (front s)) \<and> rooted cols (previous s) (pos (front s))"
  using front_in_queue [of s] by (auto simp: inv_struct_def)

lemma rooted_set2:
  assumes "shape rows cols prev" and "r < rows" and "c < cols" and "rooted cols prev x"
  shows "rooted cols (set2 prev r c (Some y)) x"
  using assms by (auto simp: rooted_def get2_set2)

lemma inv_struct_relax_to:
  assumes inv: "inv_struct rows cols s"
    and e: "inb rows cols (pos e)" "rooted cols (previous s) (pos e)"
    and c: "Suc (row e) < rows" "c < cols" "c = Suc (col e) \<or> col e = Suc c"
  shows "inv_struct rows cols (relax_to m e c s) \<and> rooted cols (previous (relax_to m e c s)) (pos e)"
proof (cases "relax_to m e c s = s")
  case True
  then show ?thesis using inv e by simp
next
  case False
  define prev' where "prev' = set2 (previous s) (Suc (row e)) c (Some (pos e))"
  from False obtain en where s':
    "relax_to m e c s = s\<lparr>distances := set2 (distances s) (Suc (row e)) c (Some (distance e + en)),
        previous := prev', queue := queue s @ [\<lparr>row = Suc (row e), col = c, distance = distance e + en\<rparr>]\<rparr>"
    by (auto simp: relax_to_def prev'_def split: option.splits if_splits)
  have sh: "shape rows cols (previous s)" using inv by (simp add: inv_struct_def)
  have keep: "rooted cols prev' x" if "rooted cols (previous s) x" for x
    unfolding prev'_def using rooted_set2 [OF sh c(1) c(2) that] .
  have get: "get2 prev' x = (if x = (Suc (row e), c) then Some (pos e) else get2 (previous s) x)" for x
    unfolding prev'_def using get2_set2 [OF sh c(1) c(2)] .
  have new: "rooted cols prev' (Suc (row e), c)"
    by (simp add: rooted_def get)
  have links: "link y x \<and> snd y < cols \<and> rooted cols prev' y"
    if "inb rows cols x" "get2 prev' x = Some y" for x y
  proof (cases "x = (Suc (row e), c)")
    case True
    then have "y = pos e" using that(2) by (simp add: get)
    then show ?thesis
      using True e c keep by (auto simp: link_def pos_def inb_def)
  next
    case False
    then have "get2 (previous s) x = Some y" using that(2) by (simp add: get)
    then have "link y x \<and> snd y < cols \<and> rooted cols (previous s) y"
      using inv that(1) unfolding inv_struct_def by blast
    then show ?thesis
      using keep by blast
  qed
  have q: "inb rows cols (pos e') \<and> rooted cols prev' (pos e')"
    if "e' \<in> set (queue s @ [\<lparr>row = Suc (row e), col = c, distance = distance e + en\<rparr>])" for e'
  proof (cases "e' \<in> set (queue s)")
    case True
    then show ?thesis using inv keep unfolding inv_struct_def by blast
  next
    case False
    then have "pos e' = (Suc (row e), c)" using that by (auto simp: pos_def)
    then show ?thesis using new c by (simp add: inb_def)
  qed
  have "shape rows cols (set2 (distances s) (Suc (row e)) c (Some (distance e + en)))"
    "shape rows cols (visited s)" "shape rows cols prev'"
    using inv unfolding prev'_def inv_struct_def by (simp_all add: shape_set2)
  moreover have "\<forall>e'\<in>set (queue s @ [\<lparr>row = Suc (row e), col = c, distance = distance e + en\<rparr>]).
      inb rows cols (pos e') \<and> rooted cols prev' (pos e')"
    using q by blast
  moreover have "\<forall>x y. inb rows cols x \<and> get2 prev' x = Some y \<longrightarrow>
      link y x \<and> snd y < cols \<and> rooted cols prev' y"
    using links by blast
  ultimately have "inv_struct rows cols (relax_to m e c s)"
    unfolding s' inv_struct_def by (simp del: split_paired_All split_paired_Ex)
  then show ?thesis
    using keep [OF e(2)] by (simp add: s')
qed

lemma inv_struct_step:
  assumes inv: "inv_struct rows cols s" and ne: "queue s \<noteq> []"
  shows "inv_struct rows cols (neighbours m rows cols (front s) (marked s))"
proof -
  let ?e = "front s"
  let ?P = "\<lambda>s'. inv_struct rows cols s' \<and> rooted cols (previous s') (pos ?e)"
  have "?P (neighbours m rows cols ?e (marked s))"
  proof (rule neighbours_rule [where P = ?P])
    show "?P (marked s)"
      using inv_struct_marked [OF inv] inv_struct_front [OF inv ne] by simp
  next
    fix c s'
    assume "?P s'" "Suc (row ?e) < rows" "c < cols" "c = Suc (col ?e) \<or> col ?e = Suc c"
    then show "?P (relax_to m ?e c s')"
      using inv_struct_relax_to [of rows cols s' ?e c m] inv_struct_front [OF inv ne] by simp
  qed
  then show ?thesis by simp
qed

text \<open>A list of cells in which each cell is linked to the next one.\<close>

fun walk :: "coords list \<Rightarrow> bool" where
  "walk [] = True"
| "walk [x] = True"
| "walk (y # x # p) = (link y x \<and> walk (x # p))"

lemma walk_snoc: "walk q \<Longrightarrow> q \<noteq> [] \<Longrightarrow> link (last q) x \<Longrightarrow> walk (q @ [x])"
  by (induction q rule: walk.induct) auto

lemma walk_rows: "walk q \<Longrightarrow> map fst q = [fst (hd q)..<fst (hd q) + length q]"
proof (induction q rule: walk.induct)
  case (3 y x p)
  then have "map fst (x # p) = [Suc (fst y)..<Suc (fst y) + length (x # p)]"
    by (simp add: link_def)
  moreover have "[fst y..<fst y + length (y # x # p)] = fst y # [Suc (fst y)..<Suc (fst y) + length (x # p)]"
    by (subst upt_rec) simp
  ultimately show ?case
    by (simp del: upt_Suc)
qed simp_all

lemma walk_nth: "walk q \<Longrightarrow> Suc i < length q \<Longrightarrow> link (q ! i) (q ! Suc i)"
proof (induction q arbitrary: i rule: walk.induct)
  case (3 y x p)
  then show ?case by (cases i) auto
qed simp_all

text \<open>
  The walk back from a cell that is inside the matrix and has a predecessor (or is the
  start cell) ends, and gives a walk from the start cell down to that cell.
\<close>

lemma trace_back_walk:
  assumes links: "\<forall>x y. inb rows cols x \<and> get2 prev x = Some y \<longrightarrow>
      link y x \<and> snd y < cols \<and> rooted cols prev y"
    and x: "inb rows cols x" "rooted cols prev x"
  shows "\<exists>q. trace_back prev (get2 prev x) (x # acc) = Some (q @ acc) \<and> q \<noteq> [] \<and> walk q \<and>
           hd q = (0, cols div 2) \<and> last q = x \<and> (\<forall>y\<in>set q. snd y < cols)"
  using x
proof (induction "fst x" arbitrary: x acc)
  case 0
  have "get2 prev x = None"
  proof (cases "get2 prev x")
    case (Some y)
    then have "link y x" using links "0.prems"(1) by blast
    then show ?thesis using "0.hyps" by (simp add: link_def)
  qed simp
  moreover have "x = (0, cols div 2)"
    using "0.hyps" "0.prems"(2) by (cases x) (simp add: rooted_def)
  ultimately have "trace_back prev (get2 prev x) (x # acc) = Some ([x] @ acc)"
    by (simp add: trace_back.simps)
  moreover have "snd x < cols" using "0.prems"(1) by (simp add: inb_def)
  ultimately show ?case
    using \<open>x = (0, cols div 2)\<close> by (intro exI [of _ "[x]"]) simp
next
  case (Suc n)
  from Suc.hyps(2) Suc.prems(2) obtain y where y: "get2 prev x = Some y"
    by (auto simp: rooted_def)
  then have ly: "link y x" "snd y < cols" "rooted cols prev y"
    using links Suc.prems(1) by blast+
  then have fy: "n = fst y" using Suc.hyps(2) by (simp add: link_def)
  have "inb rows cols y"
    using ly Suc.prems(1) by (simp add: inb_def link_def)
  from Suc.hyps(1) [OF fy this ly(3), of "x # acc"]
  obtain q where q: "trace_back prev (get2 prev y) (y # x # acc) = Some (q @ x # acc)"
    "q \<noteq> []" "walk q" "hd q = (0, cols div 2)" "last q = y" "\<forall>z\<in>set q. snd z < cols"
    by blast
  have "trace_back prev (get2 prev x) (x # acc) = trace_back prev (get2 prev y) (y # x # acc)"
    unfolding y by (subst trace_back.simps) (simp add: get2_def)
  then have "trace_back prev (get2 prev x) (x # acc) = Some ((q @ [x]) @ acc)"
    using q(1) by simp
  moreover have "walk (q @ [x])"
    using walk_snoc [OF q(3) q(2)] q(5) ly(1) by simp
  moreover have "snd x < cols" using Suc.prems(1) by (simp add: inb_def)
  ultimately show ?case
    using q by (intro exI [of _ "q @ [x]"]) auto
qed

text \<open>The state in which \<^verbatim>\<open>pathfind\<close> enters its loop, for a start cell of energy \<open>d0\<close>.\<close>

definition initial :: "nat \<Rightarrow> nat \<Rightarrow> int \<Rightarrow> search" where
  "initial rows cols d0 =
     \<lparr>distances = set2 (replicate rows (replicate cols None)) 0 (cols div 2) (Some d0),
      visited = replicate rows (replicate cols False),
      previous = replicate rows (replicate cols None),
      queue = [\<lparr>row = 0, col = cols div 2, distance = d0\<rparr>]\<rparr>"

lemma pathfind_started:
  assumes "cell m 0 (length (m ! 0) div 2) = Some d0"
  shows "m \<noteq> []"
    and "pathfind m = map_option Inr (pathfind_loop m (length m) (length (m ! 0)) (initial (length m) (length (m ! 0)) d0))"
proof -
  show "m \<noteq> []" using assms by (auto simp: cell_def split: if_splits)
  then show "pathfind m = map_option Inr (pathfind_loop m (length m) (length (m ! 0)) (initial (length m) (length (m ! 0)) d0))"
    using assms by (simp add: pathfind_def initial_def Let_def)
qed

lemma inv_struct_initial:
  assumes "0 < rows" and "0 < cols"
  shows "inv_struct rows cols (initial rows cols d0)"
proof -
  have "get2 (replicate rows (replicate cols (None :: coords option))) x = None"
    if "inb rows cols x" for x
    using that by (rule get2_replicate)
  then have "\<forall>x y. inb rows cols x \<and> get2 (previous (initial rows cols d0)) x = Some y \<longrightarrow>
      link y x \<and> snd y < cols \<and> rooted cols (previous (initial rows cols d0)) y"
    by (simp add: initial_def del: split_paired_All cong: conj_cong)
  moreover have "\<forall>e\<in>set (queue (initial rows cols d0)).
      inb rows cols (pos e) \<and> rooted cols (previous (initial rows cols d0)) (pos e)"
    using assms by (simp add: initial_def inb_def pos_def rooted_def)
  moreover have "shape rows cols (distances (initial rows cols d0))"
    "shape rows cols (visited (initial rows cols d0))"
    "shape rows cols (previous (initial rows cols d0))"
    by (simp_all add: initial_def shape_set2 shape_replicate)
  ultimately show ?thesis
    unfolding inv_struct_def by blast
qed

text \<open>What \<^verbatim>\<open>pathfind\<close> returns, when it returns a path.\<close>

definition seam :: "nat \<Rightarrow> nat \<Rightarrow> coords list \<Rightarrow> bool" where
  "seam rows cols p =
     (p \<noteq> [] \<and> walk p \<and> hd p = (0, cols div 2) \<and> Suc (fst (last p)) = rows \<and>
      (0 < cols \<longrightarrow> (\<forall>y\<in>set p. snd y < cols)))"

lemma pathfind_loop_seam:
  assumes "inv_struct rows cols s" and "pathfind_loop m rows cols s = Some (Some p)"
  shows "seam rows cols p"
proof -
  let ?Q = "\<lambda>res. \<forall>p. res = Some (Some p) \<longrightarrow> seam rows cols p"
  have "?Q (pathfind_loop m rows cols s)"
  proof (rule pathfind_loop_rule [where I = "inv_struct rows cols" and Q = ?Q])
    show "inv_struct rows cols s" by fact
  next
    fix s assume "inv_struct rows cols s"
    then show "inv_struct rows cols (popped s)" by (rule inv_struct_popped)
  next
    fix s assume "inv_struct rows cols s" "queue s \<noteq> []"
    then show "inv_struct rows cols (neighbours m rows cols (front s) (marked s))"
      by (rule inv_struct_step)
  next
    fix s
    assume inv: "inv_struct rows cols s" and ne: "queue s \<noteq> []"
      and last: "Suc (row (front s)) = rows"
    have links: "\<forall>x y. inb rows cols x \<and> get2 (previous s) x = Some y \<longrightarrow>
        link y x \<and> snd y < cols \<and> rooted cols (previous s) y"
      using inv unfolding inv_struct_def by blast
    from trace_back_walk [OF links, of "pos (front s)" "[]"] inv_struct_front [OF inv ne]
    obtain q where "trace_back (previous s) (get2 (previous s) (pos (front s))) [pos (front s)] = Some q"
      "q \<noteq> []" "walk q" "hd q = (0, cols div 2)" "last q = pos (front s)" "\<forall>y\<in>set q. snd y < cols"
      by auto
    then show "?Q (map_option Some
        (trace_back (previous s) (get2 (previous s) (pos (front s))) [pos (front s)]))"
      using last by (auto simp: seam_def pos_def)
  qed simp
  then show ?thesis using assms(2) by blast
qed

lemma pathfind_seam:
  assumes "pathfind m = Some (Inr (Some p))"
  shows "seam (length m) (length (m ! 0)) p"
proof (cases "cell m 0 (length (m ! 0) div 2)")
  case None
  then show ?thesis
    using assms by (auto simp: pathfind_def Let_def seam_def cell_def split: if_splits)
next
  case (Some d0)
  have ne: "m \<noteq> []" and run: "pathfind m =
      map_option Inr (pathfind_loop m (length m) (length (m ! 0)) (initial (length m) (length (m ! 0)) d0))"
    using pathfind_started [OF Some] by blast+
  have "0 < length (m ! 0)"
    using Some by (auto simp: cell_def split: if_splits)
  then have "inv_struct (length m) (length (m ! 0)) (initial (length m) (length (m ! 0)) d0)"
    using ne by (intro inv_struct_initial) simp_all
  moreover have "pathfind_loop m (length m) (length (m ! 0)) (initial (length m) (length (m ! 0)) d0) = Some (Some p)"
    using assms run by auto
  ultimately show ?thesis by (rule pathfind_loop_seam)
qed

lemma seam_rows:
  assumes "seam rows cols p"
  shows "length p = rows" and "map fst p = [0..<rows]"
proof -
  have p: "p \<noteq> []" "walk p" "fst (hd p) = 0" "Suc (fst (last p)) = rows"
    using assms by (simp_all add: seam_def)
  have rows: "map fst p = [0..<length p]"
    using walk_rows [OF p(2)] p(3) by simp
  have "fst (last p) = last (map fst p)"
    using p(1) by (simp add: last_map)
  also have "\<dots> = length p - 1"
    using p(1) by (simp add: rows del: upt.simps)
  finally show "length p = rows"
    using p(1) p(4) by (cases p) simp_all
  then show "map fst p = [0..<rows]"
    using rows by simp
qed

section \<open>The shape of a returned seam\<close>

text \<open>
  C1. When \<^verbatim>\<open>pathfind\<close> returns a seam for a matrix of height \<open>H = length m\<close>, the seam has
  exactly \<open>H\<close> coordinate pairs, the pair at index \<open>i\<close> lies in row \<open>i\<close> (rows \<open>0\<close> to
  \<open>H - 1\<close> in increasing order), and the columns of consecutive pairs differ by at most 1.
\<close>

theorem pathfind_one_cell_per_row:
  assumes "pathfind m = Some (Inr (Some p))"
  shows "length p = length m \<and> map fst p = [0..<length m] \<and>
         (\<forall>i. Suc i < length p \<longrightarrow> \<bar>int (snd (p ! Suc i)) - int (snd (p ! i))\<bar> \<le> 1)"
proof -
  have s: "seam (length m) (length (m ! 0)) p"
    using assms by (rule pathfind_seam)
  have "\<bar>int (snd (p ! Suc i)) - int (snd (p ! i))\<bar> \<le> 1" if "Suc i < length p" for i
    using walk_nth [OF _ that, of ] s by (auto simp: seam_def link_def)
  then show ?thesis
    using seam_rows [OF s] by simp
qed

theorem pathfind_one_cell_per_row_witness:
  "pathfind [[Some 0, Some 1, Some 5], [Some 0, Some 3, Some 1], [Some 9, Some 9, Some 1]]
     = Some (Inr (Some [(0, 1), (1, 0), (2, 1)])) \<and>
   length [(0, 1), (1, 0), (2, 1 :: nat)] = length [[Some 0, Some 1, Some 5], [Some 0, Some 3, Some 1], [Some 9, Some 9, Some (1 :: int)]] \<and>
   map fst [(0 :: nat, 1 :: nat), (1, 0), (2, 1)] = [0..<3] \<and>
   \<bar>int (snd ([(0 :: nat, 1 :: nat), (1, 0), (2, 1)] ! 1)) - int (snd ([(0 :: nat, 1 :: nat), (1, 0), (2, 1)] ! 0))\<bar> \<le> 1"
proof -
  have run: "pathfind [[Some 0, Some 1, Some 5], [Some 0, Some 3, Some 1], [Some 9, Some 9, Some 1]]
     = Some (Inr (Some [(0, 1), (1, 0), (2, 1)]))"
    by code_simp
  from pathfind_one_cell_per_row [OF run] show ?thesis
    using run by (simp add: upt_rec)
qed

text \<open>
  C4. When \<^verbatim>\<open>pathfind\<close> returns a seam for a matrix whose first row has \<open>W\<close> columns, the seam's
  first pair is \<open>(0, W div 2)\<close>; each step of the seam moves to the column one to the left or one
  to the right, so no two consecutive pairs share a column; and when the start cell holds a number
  \<open>d0\<close>, the search runs from the state whose queue holds the start cell alone, at distance \<open>d0\<close>,
  which is also the distance recorded for the start cell.
\<close>

theorem pathfind_start_and_diagonal:
  assumes "pathfind m = Some (Inr (Some p))"
  shows "hd p = (0, length (m ! 0) div 2) \<and>
         (\<forall>i. Suc i < length p \<longrightarrow>
            snd (p ! Suc i) \<noteq> snd (p ! i) \<and>
            (snd (p ! Suc i) = snd (p ! i) + 1 \<or> snd (p ! Suc i) + 1 = snd (p ! i))) \<and>
         (\<forall>d0. cell m 0 (length (m ! 0) div 2) = Some d0 \<longrightarrow>
            pathfind m = map_option Inr (pathfind_loop m (length m) (length (m ! 0))
                            (initial (length m) (length (m ! 0)) d0)) \<and>
            queue (initial (length m) (length (m ! 0)) d0) =
              [\<lparr>row = 0, col = length (m ! 0) div 2, distance = d0\<rparr>] \<and>
            get2 (distances (initial (length m) (length (m ! 0)) d0)) (0, length (m ! 0) div 2) = Some d0)"
proof -
  have s: "seam (length m) (length (m ! 0)) p"
    using assms by (rule pathfind_seam)
  have "snd (p ! Suc i) \<noteq> snd (p ! i) \<and>
        (snd (p ! Suc i) = snd (p ! i) + 1 \<or> snd (p ! Suc i) + 1 = snd (p ! i))"
    if "Suc i < length p" for i
    using walk_nth [OF _ that] s by (auto simp: seam_def link_def)
  moreover have "pathfind m = map_option Inr (pathfind_loop m (length m) (length (m ! 0))
                            (initial (length m) (length (m ! 0)) d0)) \<and>
            queue (initial (length m) (length (m ! 0)) d0) =
              [\<lparr>row = 0, col = length (m ! 0) div 2, distance = d0\<rparr>] \<and>
            get2 (distances (initial (length m) (length (m ! 0)) d0)) (0, length (m ! 0) div 2) = Some d0"
    if c: "cell m 0 (length (m ! 0) div 2) = Some d0" for d0
  proof -
    have "0 < length m" "length (m ! 0) div 2 < length (m ! 0)"
      using c by (auto simp: cell_def split: if_splits)
    then have "get2 (distances (initial (length m) (length (m ! 0)) d0)) (0, length (m ! 0) div 2) = Some d0"
      by (simp add: initial_def get2_def set2_def)
    then show ?thesis
      using pathfind_started(2) [OF c] by (simp add: initial_def)
  qed
  ultimately show ?thesis
    using s by (simp add: seam_def)
qed

theorem pathfind_start_and_diagonal_witness:
  "pathfind [[Some 0, Some 1, Some 5], [Some 0, Some 3, Some 1], [Some 9, Some 9, Some 1]]
     = Some (Inr (Some [(0, 1), (1, 0), (2, 1)])) \<and>
   hd [(0 :: nat, 1 :: nat), (1, 0), (2, 1)] = (0, 3 div 2) \<and>
   snd ([(0 :: nat, 1 :: nat), (1, 0), (2, 1)] ! 1) + 1 = snd ([(0 :: nat, 1 :: nat), (1, 0), (2, 1)] ! 0) \<and>
   snd ([(0 :: nat, 1 :: nat), (1, 0), (2, 1)] ! 2) = snd ([(0 :: nat, 1 :: nat), (1, 0), (2, 1)] ! 1) + 1 \<and>
   cell [[Some 0, Some 1, Some 5], [Some 0, Some 3, Some 1], [Some 9, Some 9, Some 1]] 0 1 = Some 1 \<and>
   queue (initial 3 3 1) = [\<lparr>row = 0, col = 1, distance = 1\<rparr>]"
proof -
  have run: "pathfind [[Some 0, Some 1, Some 5], [Some 0, Some 3, Some 1], [Some 9, Some 9, Some 1]]
     = Some (Inr (Some [(0, 1), (1, 0), (2, 1)]))"
    by code_simp
  have c: "cell [[Some 0, Some 1, Some 5], [Some 0, Some 3, Some 1], [Some 9, Some 9, Some 1]] 0 1 = Some 1"
    by (simp add: cell_def)
  from pathfind_start_and_diagonal [OF run] c show ?thesis
    using run by (simp add: initial_def)
qed

section \<open>Reaching the last row\<close>

text \<open>A matrix of \<open>rows\<close> rows of \<open>cols\<close> numbers each.\<close>

definition grid :: "nat \<Rightarrow> nat \<Rightarrow> matrix \<Rightarrow> bool" where
  "grid rows cols m =
     (length m = rows \<and> (\<forall>r<rows. length (m ! r) = cols \<and> (\<forall>c<cols. m ! r ! c \<noteq> None)))"

lemma grid_cell: "grid rows cols m \<Longrightarrow> r < rows \<Longrightarrow> c < cols \<Longrightarrow> \<exists>en. cell m r c = Some en"
  by (auto simp: grid_def cell_def)

text \<open>What one relaxation does to the state.\<close>

lemma relax_to_cases [consumes 5, case_names same lower]:
  assumes "shape rows cols (distances s)" and "shape rows cols (previous s)"
    and "Suc (row e) < rows" and "c < cols" and "cell m (Suc (row e)) c = Some en"
  obtains
    (same) "relax_to m e c s = s"
      "\<exists>d. get2 (distances s) (Suc (row e), c) = Some d \<and> d \<le> distance e + en"
  | (lower) "below (distance e + en) (get2 (distances s) (Suc (row e), c))"
      "queue (relax_to m e c s) = queue s @ [\<lparr>row = Suc (row e), col = c, distance = distance e + en\<rparr>]"
      "visited (relax_to m e c s) = visited s"
      "\<And>y. get2 (distances (relax_to m e c s)) y =
            (if y = (Suc (row e), c) then Some (distance e + en) else get2 (distances s) y)"
      "\<And>y. get2 (previous (relax_to m e c s)) y =
            (if y = (Suc (row e), c) then Some (pos e) else get2 (previous s) y)"
proof (cases "below (distance e + en) (get2 (distances s) (Suc (row e), c))")
  case False
  then have "relax_to m e c s = s"
    using assms(5) by (simp add: relax_to_def)
  moreover have "\<exists>d. get2 (distances s) (Suc (row e), c) = Some d \<and> d \<le> distance e + en"
    using False by (cases "get2 (distances s) (Suc (row e), c)") (auto simp: below_def)
  ultimately show ?thesis by (rule same)
next
  case True
  then have eq: "relax_to m e c s =
      s\<lparr>distances := set2 (distances s) (Suc (row e)) c (Some (distance e + en)),
        previous := set2 (previous s) (Suc (row e)) c (Some (pos e)),
        queue := queue s @ [\<lparr>row = Suc (row e), col = c, distance = distance e + en\<rparr>]\<rparr>"
    using assms(5) by (simp add: relax_to_def)
  show ?thesis
  proof (rule lower [OF True])
    show "queue (relax_to m e c s) = queue s @ [\<lparr>row = Suc (row e), col = c, distance = distance e + en\<rparr>]"
      by (simp add: eq)
    show "visited (relax_to m e c s) = visited s"
      by (simp add: eq)
    show "get2 (distances (relax_to m e c s)) y =
            (if y = (Suc (row e), c) then Some (distance e + en) else get2 (distances s) y)" for y
      using get2_set2 [OF assms(1) assms(3) assms(4)] by (simp add: eq)
    show "get2 (previous (relax_to m e c s)) y =
            (if y = (Suc (row e), c) then Some (pos e) else get2 (previous s) y)" for y
      using get2_set2 [OF assms(2) assms(3) assms(4)] by (simp add: eq)
  qed
qed

text \<open>
  The invariant of the queue and the distances: an entry is never below its cell's
  distance; a reached cell that is not visited has an entry with its distance; a visited
  cell is above the last row and reached; the start cell is reached.
\<close>

definition inv_reach :: "nat \<Rightarrow> nat \<Rightarrow> search \<Rightarrow> bool" where
  "inv_reach rows cols s =
     ((\<forall>e\<in>set (queue s). \<exists>d. get2 (distances s) (pos e) = Some d \<and> d \<le> distance e) \<and>
      (\<forall>x d. inb rows cols x \<and> \<not> get2 (visited s) x \<and> get2 (distances s) x = Some d \<longrightarrow>
         (\<exists>e\<in>set (queue s). pos e = x \<and> distance e = d)) \<and>
      (\<forall>x. inb rows cols x \<and> get2 (visited s) x \<longrightarrow>
         Suc (fst x) < rows \<and> get2 (distances s) x \<noteq> None) \<and>
      get2 (distances s) (0, cols div 2) \<noteq> None)"

text \<open>The cells below \<open>x\<close> that \<open>x\<close> links to are reached, for every visited \<open>x\<close> outside \<open>U\<close>.\<close>

definition inv_fed :: "nat \<Rightarrow> nat \<Rightarrow> coords set \<Rightarrow> search \<Rightarrow> bool" where
  "inv_fed rows cols U s =
     (\<forall>x y. inb rows cols x \<and> get2 (visited s) x \<and> x \<notin> U \<and> inb rows cols y \<and> link x y \<longrightarrow>
        get2 (distances s) y \<noteq> None)"

lemma inv_reach_popped:
  assumes inv: "inv_reach rows cols s" and ne: "queue s \<noteq> []"
    and vis: "get2 (visited s) (pos (front s))"
  shows "inv_reach rows cols (popped s)"
proof -
  have q: "set (queue s) = insert (front s) (set (queue (popped s)))"
    using ne by (rule queue_split)
  have 1: "\<forall>e\<in>set (queue (popped s)). \<exists>d. get2 (distances s) (pos e) = Some d \<and> d \<le> distance e"
    using inv q unfolding inv_reach_def by blast
  have 2: "\<exists>e\<in>set (queue (popped s)). pos e = x \<and> distance e = d"
    if a: "inb rows cols x" "\<not> get2 (visited s) x" "get2 (distances s) x = Some d" for x d
  proof -
    obtain e where e: "e \<in> set (queue s)" "pos e = x" "distance e = d"
      using inv a unfolding inv_reach_def by blast
    then have "e \<noteq> front s" using vis a(2) by auto
    then show ?thesis using e q by auto
  qed
  show ?thesis
    unfolding inv_reach_def popped_fields
    using 1 2 inv by (simp add: inv_reach_def del: split_paired_All)
qed


lemma get2_visited_marked:
  assumes "shape rows cols (visited s)" and "inb rows cols (pos (front s))"
  shows "get2 (visited (marked s)) x = (x = pos (front s) \<or> get2 (visited s) x)"
  using get2_set2 [OF assms(1), of "row (front s)" "col (front s)" True x] assms(2)
  by (auto simp: inb_def pos_def visited_marked)

lemma inv_reach_marked:
  assumes inv: "inv_reach rows cols s" and st: "inv_struct rows cols s" and ne: "queue s \<noteq> []"
    and more: "Suc (row (front s)) \<noteq> rows"
  shows "inv_reach rows cols (marked s)"
proof -
  have fr: "inb rows cols (pos (front s))"
    using inv_struct_front [OF st ne] by simp
  have vis: "get2 (visited (marked s)) x = (x = pos (front s) \<or> get2 (visited s) x)" for x
    using st fr by (intro get2_visited_marked) (simp_all add: inv_struct_def)
  have q: "set (queue s) = insert (front s) (set (queue (popped s)))"
    using ne by (rule queue_split)
  have 1: "\<forall>e\<in>set (queue (popped s)). \<exists>d. get2 (distances s) (pos e) = Some d \<and> d \<le> distance e"
    using inv q unfolding inv_reach_def by blast
  have 2: "\<exists>e\<in>set (queue (popped s)). pos e = x \<and> distance e = d"
    if a: "inb rows cols x" "\<not> get2 (visited (marked s)) x" "get2 (distances s) x = Some d" for x d
  proof -
    have "\<not> get2 (visited s) x" "x \<noteq> pos (front s)" using a(2) vis by auto
    then obtain e where e: "e \<in> set (queue s)" "pos e = x" "distance e = d"
      using inv a unfolding inv_reach_def by blast
    then have "e \<noteq> front s" using \<open>x \<noteq> pos (front s)\<close> by auto
    then show ?thesis using e q by auto
  qed
  have 3: "Suc (fst x) < rows \<and> get2 (distances s) x \<noteq> None"
    if "inb rows cols x" "get2 (visited (marked s)) x" for x
  proof (cases "x = pos (front s)")
    case True
    have "front s \<in> set (queue s)" using ne by (rule front_in_queue)
    then have "get2 (distances s) (pos (front s)) \<noteq> None"
      using inv unfolding inv_reach_def by fastforce
    moreover have "Suc (row (front s)) < rows"
      using fr more by (simp add: inb_def pos_def)
    ultimately show ?thesis using True by (simp add: pos_def)
  next
    case False
    then have "get2 (visited s) x" using that(2) vis by simp
    then show ?thesis using inv that(1) unfolding inv_reach_def by blast
  qed
  have 4: "get2 (distances s) (0, cols div 2) \<noteq> None"
    using inv by (simp add: inv_reach_def)
  show ?thesis
    unfolding inv_reach_def marked_fields
    using 1 2 3 4 by (simp del: split_paired_All)
qed

lemma inv_fed_marked:
  assumes inv: "inv_fed rows cols {} s" and st: "inv_struct rows cols s" and ne: "queue s \<noteq> []"
  shows "inv_fed rows cols {pos (front s)} (marked s)"
proof -
  have fr: "inb rows cols (pos (front s))"
    using inv_struct_front [OF st ne] by simp
  have vis: "get2 (visited (marked s)) x = (x = pos (front s) \<or> get2 (visited s) x)" for x
    using st fr by (intro get2_visited_marked) (simp_all add: inv_struct_def)
  show ?thesis
    using inv unfolding inv_fed_def marked_fields vis by blast
qed

lemma visited_relax_to [simp]: "visited (relax_to m e c s) = visited s"
  by (simp add: relax_to_def split: option.splits)

lemma inv_reach_relax_to:
  assumes inv: "inv_reach rows cols s" and st: "inv_struct rows cols s"
    and c: "Suc (row e) < rows" "c < cols" and en: "cell m (Suc (row e)) c = Some en"
  shows "inv_reach rows cols (relax_to m e c s)"
    and "\<exists>d. get2 (distances (relax_to m e c s)) (Suc (row e), c) = Some d \<and> d \<le> distance e + en"
    and "\<forall>y d. get2 (distances s) y = Some d \<longrightarrow>
           (\<exists>d'. get2 (distances (relax_to m e c s)) y = Some d' \<and> d' \<le> d)"
proof -
  let ?s' = "relax_to m e c s"
  let ?w = "(Suc (row e), c)"
  let ?nd = "distance e + en"
  have sh: "shape rows cols (distances s)" "shape rows cols (previous s)"
    using st by (simp_all add: inv_struct_def)
  have "inv_reach rows cols ?s' \<and> (\<exists>d. get2 (distances ?s') ?w = Some d \<and> d \<le> ?nd) \<and>
        (\<forall>y d. get2 (distances s) y = Some d \<longrightarrow> (\<exists>d'. get2 (distances ?s') y = Some d' \<and> d' \<le> d))"
    using sh c en
  proof (cases rule: relax_to_cases)
    case same
    then show ?thesis using inv by simp
  next
    case lower
    have low: "?nd < d" if "get2 (distances s) ?w = Some d" for d
      using lower(1) that by (simp add: below_def)
    have 1: "\<exists>d. get2 (distances ?s') (pos e') = Some d \<and> d \<le> distance e'"
      if e': "e' \<in> set (queue ?s')" for e'
    proof (cases "e' \<in> set (queue s)")
      case True
      then obtain d where d: "get2 (distances s) (pos e') = Some d" "d \<le> distance e'"
        using inv unfolding inv_reach_def by blast
      show ?thesis
      proof (cases "pos e' = ?w")
        case True
        then show ?thesis using d low [of d] by (simp add: lower(4))
      next
        case False
        then show ?thesis using d by (simp add: lower(4))
      qed
    next
      case False
      then have "e' = \<lparr>row = Suc (row e), col = c, distance = ?nd\<rparr>"
        using e' by (simp add: lower(2))
      then show ?thesis by (simp add: lower(4) pos_def)
    qed
    have 2: "\<exists>e'\<in>set (queue ?s'). pos e' = x \<and> distance e' = d"
      if a: "inb rows cols x" "\<not> get2 (visited ?s') x" "get2 (distances ?s') x = Some d" for x d
    proof (cases "x = ?w")
      case True
      then have "d = ?nd" using a(3) by (simp add: lower(4))
      then show ?thesis using True by (simp add: lower(2) pos_def)
    next
      case False
      then have "get2 (distances s) x = Some d" using a(3) by (simp add: lower(4))
      then have "\<exists>e'\<in>set (queue s). pos e' = x \<and> distance e' = d"
        using inv a(1) a(2) unfolding inv_reach_def visited_relax_to by blast
      then show ?thesis by (auto simp: lower(2))
    qed
    have 3: "Suc (fst x) < rows \<and> get2 (distances ?s') x \<noteq> None"
      if a: "inb rows cols x" "get2 (visited ?s') x" for x
    proof -
      have "Suc (fst x) < rows \<and> get2 (distances s) x \<noteq> None"
        using inv a unfolding inv_reach_def visited_relax_to by blast
      then show ?thesis by (simp add: lower(4))
    qed
    have 4: "get2 (distances ?s') (0, cols div 2) \<noteq> None"
      using inv by (simp add: inv_reach_def lower(4))
    have "inv_reach rows cols ?s'"
      unfolding inv_reach_def using 1 2 3 4 by (simp del: split_paired_All)
    moreover have "\<exists>d'. get2 (distances ?s') y = Some d' \<and> d' \<le> d"
      if "get2 (distances s) y = Some d" for y d
      using that low [of d] by (cases "y = ?w") (simp_all add: lower(4))
    ultimately show ?thesis by (simp add: lower(4))
  qed
  then show "inv_reach rows cols ?s'"
    and "\<exists>d. get2 (distances ?s') ?w = Some d \<and> d \<le> ?nd"
    and "\<forall>y d. get2 (distances s) y = Some d \<longrightarrow> (\<exists>d'. get2 (distances ?s') y = Some d' \<and> d' \<le> d)"
    by blast+
qed

lemma inv_fed_relax_to:
  assumes "inv_fed rows cols U s"
    and "\<forall>y d. get2 (distances s) y = Some d \<longrightarrow>
           (\<exists>d'. get2 (distances (relax_to m e c s)) y = Some d' \<and> d' \<le> d)"
  shows "inv_fed rows cols U (relax_to m e c s)"
  unfolding inv_fed_def
proof (intro allI impI)
  fix x y
  assume a: "inb rows cols x \<and> get2 (visited (relax_to m e c s)) x \<and> x \<notin> U \<and> inb rows cols y \<and> link x y"
  then have "get2 (distances s) y \<noteq> None"
    using assms(1) unfolding inv_fed_def visited_relax_to by blast
  then show "get2 (distances (relax_to m e c s)) y \<noteq> None"
    using assms(2) by fastforce
qed

text \<open>
  The loop over \<open>j\<close> relaxes every diagonal neighbour inside the matrix: a property \<open>R c\<close>
  that the relaxation to column \<open>c\<close> establishes, and that the other relaxation keeps, holds
  afterwards for every such column.
\<close>

lemma neighbours_post:
  assumes P: "P s" and e: "Suc (row e) < rows" "col e < cols"
    and step: "\<And>c s'. P s' \<Longrightarrow> c < cols \<Longrightarrow> c = Suc (col e) \<or> col e = Suc c \<Longrightarrow>
                 P (relax_to m e c s') \<and> R c (relax_to m e c s')"
    and keep: "\<And>c c' s'. P s' \<Longrightarrow> R c s' \<Longrightarrow> c' < cols \<Longrightarrow> c' = Suc (col e) \<or> col e = Suc c' \<Longrightarrow>
                 R c (relax_to m e c' s')"
  shows "P (neighbours m rows cols e s) \<and>
         (\<forall>c<cols. c = Suc (col e) \<or> col e = Suc c \<longrightarrow> R c (neighbours m rows cols e s))"
proof -
  define s' where "s' = (if 0 < col e \<and> col e \<le> cols then relax_to m e (col e - 1) s else s)"
  have eq: "neighbours m rows cols e s =
      (if Suc (col e) < cols then relax_to m e (Suc (col e)) s' else s')"
    using e by (simp add: neighbours_eq s'_def Let_def)
  have l: "P s' \<and> (\<forall>c<cols. col e = Suc c \<longrightarrow> R c s')"
  proof (cases "0 < col e")
    case True
    then have "s' = relax_to m e (col e - 1) s" using e by (simp add: s'_def)
    moreover have "P (relax_to m e (col e - 1) s) \<and> R (col e - 1) (relax_to m e (col e - 1) s)"
      using step [OF P, of "col e - 1"] True e by simp
    ultimately show ?thesis by auto
  next
    case False
    then show ?thesis using P by (simp add: s'_def)
  qed
  show ?thesis
  proof (cases "Suc (col e) < cols")
    case True
    have "P (relax_to m e (Suc (col e)) s') \<and> R (Suc (col e)) (relax_to m e (Suc (col e)) s')"
      using step [of s' "Suc (col e)"] l True by simp
    moreover have "R c (relax_to m e (Suc (col e)) s')" if "c < cols" "col e = Suc c" for c
      using keep [of s' c "Suc (col e)"] l True that by simp
    ultimately show ?thesis
      using True by (auto simp: eq)
  next
    case False
    then show ?thesis using l by (auto simp: eq)
  qed
qed

lemma reach_step:
  assumes g: "grid rows cols m"
    and st: "inv_struct rows cols s" and re: "inv_reach rows cols s" and fe: "inv_fed rows cols {} s"
    and ne: "queue s \<noteq> []" and more: "Suc (row (front s)) \<noteq> rows"
  shows "inv_reach rows cols (neighbours m rows cols (front s) (marked s))"
    and "inv_fed rows cols {} (neighbours m rows cols (front s) (marked s))"
proof -
  let ?e = "front s"
  let ?P = "\<lambda>s'. inv_struct rows cols s' \<and> rooted cols (previous s') (pos ?e) \<and>
                 inv_reach rows cols s' \<and> inv_fed rows cols {pos ?e} s'"
  let ?R = "\<lambda>c s'. get2 (distances s') (Suc (row ?e), c) \<noteq> None"
  let ?s' = "neighbours m rows cols ?e (marked s)"
  have fr: "inb rows cols (pos ?e)" "rooted cols (previous s) (pos ?e)"
    using inv_struct_front [OF st ne] by simp_all
  then have lt: "Suc (row ?e) < rows" "col ?e < cols"
    using more by (simp_all add: inb_def pos_def)
  have post: "?P ?s' \<and> (\<forall>c<cols. c = Suc (col ?e) \<or> col ?e = Suc c \<longrightarrow> ?R c ?s')"
  proof (rule neighbours_post [where P = ?P and R = ?R, OF _ lt])
    show "?P (marked s)"
      using inv_struct_marked [OF st] fr(2) inv_reach_marked [OF re st ne more]
        inv_fed_marked [OF fe st ne] by simp
  next
    fix c s'
    assume P: "?P s'" and c: "c < cols" "c = Suc (col ?e) \<or> col ?e = Suc c"
    obtain en where en: "cell m (Suc (row ?e)) c = Some en"
      using grid_cell [OF g lt(1) c(1)] by blast
    have "inv_struct rows cols (relax_to m ?e c s') \<and> rooted cols (previous (relax_to m ?e c s')) (pos ?e)"
      using inv_struct_relax_to [OF _ fr(1) _ lt(1) c] P by blast
    moreover have "inv_reach rows cols (relax_to m ?e c s')"
      using inv_reach_relax_to(1) [OF _ _ lt(1) c(1) en] P by blast
    moreover have "inv_fed rows cols {pos ?e} (relax_to m ?e c s')"
      using inv_fed_relax_to [OF _ inv_reach_relax_to(3) [OF _ _ lt(1) c(1) en]] P by blast
    moreover have "?R c (relax_to m ?e c s')"
      using inv_reach_relax_to(2) [OF _ _ lt(1) c(1) en] P by fastforce
    ultimately show "?P (relax_to m ?e c s') \<and> ?R c (relax_to m ?e c s')"
      by blast
  next
    fix c c' s'
    assume P: "?P s'" and R: "?R c s'" and c': "c' < cols" "c' = Suc (col ?e) \<or> col ?e = Suc c'"
    obtain en where en: "cell m (Suc (row ?e)) c' = Some en"
      using grid_cell [OF g lt(1) c'(1)] by blast
    show "?R c (relax_to m ?e c' s')"
      using inv_reach_relax_to(3) [OF _ _ lt(1) c'(1) en] P R by fastforce
  qed
  then show "inv_reach rows cols ?s'" by blast
  have "get2 (distances ?s') y \<noteq> None"
    if a: "inb rows cols x" "get2 (visited ?s') x" "inb rows cols y" "link x y" for x y
  proof (cases "x = pos ?e")
    case True
    then have "y = (Suc (row ?e), snd y)" "snd y = Suc (col ?e) \<or> col ?e = Suc (snd y)"
      using a(4) by (cases y; auto simp: link_def pos_def)+
    moreover have "snd y < cols" using a(3) by (simp add: inb_def)
    ultimately show ?thesis using post by metis
  next
    case False
    then show ?thesis
      using post a unfolding inv_fed_def by blast
  qed
  then show "inv_fed rows cols {} ?s'"
    unfolding inv_fed_def by blast
qed



lemma inv_reach_initial:
  assumes "0 < rows" and "0 < cols"
  shows "inv_reach rows cols (initial rows cols d0)" and "inv_fed rows cols {} (initial rows cols d0)"
proof -
  let ?s = "initial rows cols d0"
  have start: "0 < rows" "cols div 2 < cols" using assms by simp_all
  have d: "get2 (distances ?s) x = (if x = (0, cols div 2) then Some d0 else None)"
    if "inb rows cols x" for x
    using get2_set2 [OF shape_replicate start, of None "Some d0" x] get2_replicate [OF that, of "None :: int option"]
    by (simp add: initial_def)
  have v: "\<not> get2 (visited ?s) x" if "inb rows cols x" for x
    using get2_replicate [OF that, of False] by (simp add: initial_def)
  have q: "queue ?s = [\<lparr>row = 0, col = cols div 2, distance = d0\<rparr>]"
    by (simp add: initial_def)
  have i: "inb rows cols (0, cols div 2)" using start by (simp add: inb_def)
  have 1: "\<forall>e\<in>set (queue ?s). \<exists>d. get2 (distances ?s) (pos e) = Some d \<and> d \<le> distance e"
    using d [OF i] by (simp add: q pos_def)
  have 2: "\<exists>e\<in>set (queue ?s). pos e = x \<and> distance e = d'"
    if a: "inb rows cols x" "get2 (distances ?s) x = Some d'" for x d'
    using a d [OF a(1)] by (auto simp: q pos_def split: if_splits)
  have "get2 (distances ?s) (0, cols div 2) \<noteq> None"
    using d [OF i] by simp
  then show "inv_reach rows cols ?s"
    unfolding inv_reach_def using 1 2 v by blast
  show "inv_fed rows cols {} ?s"
    unfolding inv_fed_def using v by blast
qed

lemma grid_dims:
  assumes "grid rows cols m" and "0 < rows"
  shows "length m = rows" and "length (m ! 0) = cols"
  using assms by (auto simp: grid_def)


section \<open>Whether a seam is found\<close>




section \<open>The energy matrix\<close>

lemma fold_set2_row:
  assumes "y < length mat" and "n \<le> length (mat ! y)"
  shows "fold (\<lambda>x mat. set2 mat y x (f x)) [0..<n] mat = mat[y := map f [0..<n] @ drop n (mat ! y)]"
  using assms(2)
proof (induction n)
  case 0
  then show ?case by simp
next
  case (Suc n)
  let ?row = "map f [0..<n] @ drop n (mat ! y)"
  have "?row[n := f n] = map f [0..<Suc n] @ drop (Suc n) (mat ! y)"
    using Suc.prems by (simp add: list_update_append Cons_nth_drop_Suc [symmetric])
  then show ?case
    using Suc assms(1) by (simp add: set2_def)
qed

lemma fold_set2_rows:
  assumes "\<forall>r<length mat. length (mat ! r) = w" and "n \<le> length mat"
  shows "fold (\<lambda>y mat. fold (\<lambda>x mat. set2 mat y x (f y x)) [0..<w] mat) [0..<n] mat =
           map (\<lambda>y. map (f y) [0..<w]) [0..<n] @ drop n mat"
  using assms(2)
proof (induction n)
  case 0
  then show ?case by simp
next
  case (Suc n)
  let ?mat = "map (\<lambda>y. map (f y) [0..<w]) [0..<n] @ drop n mat"
  have len: "length ?mat = length mat" "n < length ?mat" using Suc.prems by simp_all
  have row: "?mat ! n = mat ! n" using Suc.prems by (simp add: nth_append)
  then have w: "w \<le> length (?mat ! n)" using assms(1) Suc.prems by simp
  have "fold (\<lambda>x mat. set2 mat n x (f n x)) [0..<w] ?mat = ?mat[n := map (f n) [0..<w]]"
    using fold_set2_row [OF len(2) w, of "f n"] assms(1) Suc.prems row by simp
  also have "\<dots> = map (\<lambda>y. map (f y) [0..<w]) [0..<Suc n] @ drop (Suc n) mat"
    using Suc.prems by (simp add: list_update_append upd_conv_take_nth_drop)
  finally show ?case
    using Suc by simp
qed

lemma getEnergyMatrix_eq:
  assumes "0 \<le> width img" and "0 \<le> height img"
  shows "getEnergyMatrix sobelFilter img =
           Inr (map (\<lambda>y. map (energy_at (sobelFilter img) (width img) y) [0..<nat (width img)])
                  [0..<nat (height img)])"
proof -
  let ?mat = "replicate (nat (height img)) (replicate (nat (width img)) (Some (0 :: int)))"
  have "fold (\<lambda>y mat. fold (\<lambda>x mat. set2 mat y x (energy_at (sobelFilter img) (width img) y x))
                  [0..<nat (width img)] mat) [0..<nat (height img)] ?mat =
        map (\<lambda>y. map (energy_at (sobelFilter img) (width img) y) [0..<nat (width img)])
          [0..<nat (height img)] @ drop (nat (height img)) ?mat"
    by (rule fold_set2_rows) simp_all
  then show ?thesis
    using assms by (simp add: getEnergyMatrix_def Let_def)
qed

lemma pixel_in_buffer:
  assumes "y < h" and "x < w"
  shows "(y * w + x) * 4 + 3 < w * h * (4 :: nat)"
proof -
  have "y * w + x < Suc y * w" using assms(2) by simp
  also have "\<dots> \<le> h * w" using assms(1) by (intro mult_le_mono1) simp
  finally show ?thesis by (simp add: mult.commute)
qed

lemma sample_inside: "k < length d \<Longrightarrow> sample d (int k) = Some (d ! k)"
  by (simp add: sample_def)

lemma energy_at_inside:
  assumes "0 \<le> w" and "length d = nat w * h * 4" and "y < h" and "x < nat w"
  shows "energy_at d w y x =
           Some (d ! ((y * nat w + x) * 4) + d ! ((y * nat w + x) * 4 + 1) + d ! ((y * nat w + x) * 4 + 2))"
proof -
  obtain n where n: "w = int n"
    using assms(1) by (rule nonneg_int_cases)
  let ?k = "(y * n + x) * 4"
  have k: "?k + 3 < length d"
    using pixel_in_buffer [OF assms(3), of x n] assms(2) assms(4) n by simp
  have off: "int y * w * 4 + int x * 4 = int ?k" "int ?k + 1 = int (?k + 1)" "int ?k + 2 = int (?k + 2)"
    by (simp_all add: n algebra_simps)
  have "sample d (int ?k) = Some (d ! ?k)" "sample d (int (?k + 1)) = Some (d ! (?k + 1))"
    "sample d (int (?k + 2)) = Some (d ! (?k + 2))"
    using k by (simp_all only: sample_inside)
  then show ?thesis
    unfolding energy_at_def Let_def off by (simp add: plus_num_def n)
qed

text \<open>
  C9. For a gradient-response buffer of length \<open>width * height * 4\<close>, \<^verbatim>\<open>getEnergyMatrix\<close> returns
  a matrix of \<open>height\<close> rows of \<open>width\<close> cells in which the cell at \<open>(y, x)\<close> is the sum of the
  buffer's samples of channels 0, 1 and 2 at the flat offset \<open>(y * width + x) * 4\<close>; the alpha
  sample is not read, and the sum is neither normalised nor clamped.
\<close>

theorem getEnergyMatrix_sums_channels:
  assumes "0 \<le> width img" and "0 \<le> height img"
    and "length (sobelFilter img) = nat (width img) * nat (height img) * 4"
  shows "\<exists>mat. getEnergyMatrix sobelFilter img = Inr mat \<and> length mat = nat (height img) \<and>
           (\<forall>y<nat (height img). length (mat ! y) = nat (width img) \<and>
              (\<forall>x<nat (width img).
                 mat ! y ! x =
                   Some (sobelFilter img ! ((y * nat (width img) + x) * 4) +
                         sobelFilter img ! ((y * nat (width img) + x) * 4 + 1) +
                         sobelFilter img ! ((y * nat (width img) + x) * 4 + 2))))"
  using energy_at_inside [OF assms(1) assms(3)]
  by (simp add: getEnergyMatrix_eq [OF assms(1) assms(2)])

theorem getEnergyMatrix_sums_channels_witness:
  "(0 :: int) \<le> 2 \<and> (0 :: int) \<le> 1 \<and>
   length [255, 255, 255, 9, 1, 2, 3, 200 :: int] = nat 2 * nat 1 * 4 \<and>
   getEnergyMatrix (\<lambda>i. [255, 255, 255, 9, 1, 2, 3, 200]) \<lparr>data = [0, 0, 0, 0, 0, 0, 0, 0], width = 2, height = 1\<rparr>
     = Inr [[Some 765, Some 6]]"
proof -
  let ?img = "\<lparr>data = [0, 0, 0, 0, 0, 0, 0, 0], width = 2, height = 1\<rparr>"
  let ?sobel = "\<lambda>i :: image. [255, 255, 255, 9, 1, 2, 3, 200 :: int]"
  have len: "length (?sobel ?img) = nat (width ?img) * nat (height ?img) * 4" by simp
  from getEnergyMatrix_sums_channels [of ?img ?sobel, OF _ _ len]
  obtain mat where mat: "getEnergyMatrix ?sobel ?img = Inr mat" "length mat = 1"
    "length (mat ! 0) = 2" "mat ! 0 ! 0 = Some 765" "mat ! 0 ! 1 = Some 6"
    by (auto simp: numeral_2_eq_2)
  have "mat ! 0 = [Some 765, Some 6]"
    using mat(3,4,5) by (auto simp: nth_equalityI less_Suc_eq numeral_2_eq_2 length_Suc_conv)
  then have "mat = [[Some 765, Some 6]]"
    using mat(2) by (cases mat) auto
  then show ?thesis using mat(1) by simp
qed

section \<open>Removing a seam\<close>

text \<open>
  The specification's words: the sample at index \<open>i\<close> of the buffer is on the seam when it lies in the
  run of 4 samples at the flat offset \<open>row * W * 4 + column * 4\<close> of a seam entry; the output
  holds the samples that are not on the seam, in their order.
\<close>

definition on_seam :: "nat \<Rightarrow> coords list \<Rightarrow> nat \<Rightarrow> bool" where
  "on_seam w p i =
     (\<exists>y\<in>set p. fst y * w * 4 + snd y * 4 \<le> i \<and> i < fst y * w * 4 + snd y * 4 + 4)"

definition pick :: "(nat \<Rightarrow> bool) \<Rightarrow> 'a list \<Rightarrow> 'a list" where
  "pick P d = map (\<lambda>i. d ! i) (filter P [0..<length d])"

definition without_seam :: "nat \<Rightarrow> coords list \<Rightarrow> 'a list \<Rightarrow> 'a list" where
  "without_seam w p d = pick (\<lambda>i. \<not> on_seam w p i) d"

lemma pick_append: "pick P (a @ b) = pick P a @ pick (\<lambda>j. P (j + length a)) b"
proof -
  have 1: "map (\<lambda>i. (a @ b) ! i) (filter P [0..<length a]) = map (\<lambda>i. a ! i) (filter P [0..<length a])"
    by (rule map_cong) (auto simp: nth_append)
  have "[length a..<length a + length b] = map (\<lambda>j. j + length a) [0..<length b]"
    by (simp add: map_add_upt add.commute)
  then have "map (\<lambda>i. (a @ b) ! i) (filter P [length a..<length a + length b]) =
             map (\<lambda>i. b ! i) (filter (\<lambda>j. P (j + length a)) [0..<length b])"
    by (simp add: filter_map comp_def nth_append)
  moreover have "[0..<length (a @ b)] = [0..<length a] @ [length a..<length a + length b]"
    using upt_add_eq_append [of 0 "length a" "length b"] by simp
  ultimately show ?thesis
    using 1 by (simp add: pick_def)
qed

lemma pick_cong: "(\<And>i. i < length d \<Longrightarrow> P i = Q i) \<Longrightarrow> pick P d = pick Q d"
proof -
  assume "\<And>i. i < length d \<Longrightarrow> P i = Q i"
  then have "filter P [0..<length d] = filter Q [0..<length d]"
    by (intro filter_cong) auto
  then show ?thesis by (simp add: pick_def)
qed

lemma pick_all: "(\<And>i. i < length d \<Longrightarrow> P i) \<Longrightarrow> pick P d = d"
proof -
  assume "\<And>i. i < length d \<Longrightarrow> P i"
  then have "filter P [0..<length d] = [0..<length d]"
    by (intro filter_True) auto
  then show ?thesis by (simp add: pick_def map_nth)
qed

lemma pick_none: "(\<And>i. i < length d \<Longrightarrow> \<not> P i) \<Longrightarrow> pick P d = []"
proof -
  assume "\<And>i. i < length d \<Longrightarrow> \<not> P i"
  then have "filter P [0..<length d] = []"
    by (intro filter_False) auto
  then show ?thesis by (simp add: pick_def)
qed

lemma splice_inside:
  "k + n \<le> length d \<Longrightarrow> splice d (int k) n = take k d @ drop (k + n) d"
  by (simp add: splice_def Let_def min_def)

lemma carve_path_snoc:
  "carve_path w (p @ [y]) d = carve_path w p (splice d (int (fst y) * w * 4 + int (snd y) * 4) 4)"
  by (simp add: carve_path_def Let_def)

text \<open>A seam of \<open>n\<close> entries, the entry at index \<open>i\<close> in row \<open>i\<close>, with its columns below \<open>w\<close>.\<close>

definition valid_seam :: "nat \<Rightarrow> nat \<Rightarrow> coords list \<Rightarrow> bool" where
  "valid_seam n w p = (map fst p = [0..<n] \<and> (\<forall>y\<in>set p. snd y < w))"

lemma on_seam_below:
  assumes "valid_seam n w p" and "on_seam w p i"
  shows "i < n * w * 4"
proof -
  obtain y where y: "y \<in> set p" "i < fst y * w * 4 + snd y * 4 + 4"
    using assms(2) by (auto simp: on_seam_def)
  have "fst y \<in> set (map fst p)" using y(1) by simp
  then have "fst y \<in> set [0..<n]" using assms(1) by (simp only: valid_seam_def)
  then have r: "fst y < n" by simp
  have c: "snd y < w" using assms(1) y(1) by (simp add: valid_seam_def)
  have "(fst y * w + snd y) * 4 + 3 < w * n * 4"
    using r c by (rule pixel_in_buffer)
  then show ?thesis using y(2) by (simp add: algebra_simps)
qed

lemma carve_path_without_seam:
  assumes "valid_seam n w p" and "n * w * 4 \<le> length d"
  shows "carve_path (int w) p d = without_seam w p d \<and> length (carve_path (int w) p d) + 4 * n = length d"
  using assms
proof (induction p arbitrary: n d rule: rev_induct)
  case Nil
  from Nil.prems(1) have "[0..<n] = []" by (simp add: valid_seam_def)
  then have "n = 0" by simp
  then show ?case
    by (simp add: carve_path_def without_seam_def on_seam_def pick_all)
next
  case (snoc y p)
  have c: "snd y < w" using snoc.prems(1) by (simp add: valid_seam_def)
  have rows: "map fst p @ [fst y] = [0..<n]" using snoc.prems(1) by (simp add: valid_seam_def)
  have "n \<noteq> 0"
  proof
    assume "n = 0"
    with rows show False by simp
  qed
  then obtain n' where n: "n = Suc n'" by (cases n) auto
  have "map fst p = [0..<n']" "fst y = n'"
    using rows unfolding n by simp_all
  then have n': "fst y = n'" and p: "valid_seam n' w p"
    using snoc.prems(1) by (simp_all add: valid_seam_def)
  define k where "k = fst y * w * 4 + snd y * 4"
  have k4: "k + 4 \<le> n * w * 4" and kl: "n' * w * 4 \<le> k"
    using c n n' by (simp_all add: k_def)
  then have inside: "k + 4 \<le> length d" using snoc.prems(2) by simp
  let ?A = "take k d" and ?M = "take 4 (drop k d)" and ?B = "drop (k + 4) d"
  have "?A @ ?M @ drop 4 (drop k d) = d"
    by (simp only: append_take_drop_id)
  moreover have "drop 4 (drop k d) = ?B"
    by (simp add: add.commute)
  ultimately have d: "d = ?A @ ?M @ ?B"
    by (simp only:)
  have lens: "length ?A = k" "length ?M = 4" using inside by simp_all
  have sp: "splice d (int (fst y) * int w * 4 + int (snd y) * 4) 4 = ?A @ ?B"
    using splice_inside [OF inside] by (simp add: k_def)
  have "n' * w * 4 \<le> length (?A @ ?B)" using kl inside by simp
  from snoc.IH [OF p this]
  have IH: "carve_path (int w) p (?A @ ?B) = without_seam w p (?A @ ?B)"
    "length (carve_path (int w) p (?A @ ?B)) + 4 * n' = length (?A @ ?B)"
    by blast+
  have off: "\<not> on_seam w p i" if "k \<le> i" for i
    using on_seam_below [OF p, of i] kl that by auto
  have new: "on_seam w (p @ [y]) i = (on_seam w p i \<or> (k \<le> i \<and> i < k + 4))" for i
    by (auto simp: on_seam_def k_def)
  have old: "without_seam w p (?A @ ?B) = pick (\<lambda>i. \<not> on_seam w p i) ?A @ ?B"
    unfolding without_seam_def pick_append lens
    using off by (simp add: pick_all)
  have a: "pick (\<lambda>i. \<not> on_seam w (p @ [y]) i) ?A = pick (\<lambda>i. \<not> on_seam w p i) ?A"
    by (rule pick_cong) (simp add: new)
  have m: "pick (\<lambda>j. \<not> on_seam w (p @ [y]) (j + k)) ?M = []"
    by (rule pick_none) (simp add: new)
  have b: "pick (\<lambda>j. \<not> on_seam w (p @ [y]) (j + 4 + k)) ?B = ?B"
    by (rule pick_all) (simp add: new off)
  have "carve_path (int w) (p @ [y]) d = carve_path (int w) p (?A @ ?B)"
    using sp by (simp add: carve_path_snoc)
  also have "\<dots> = pick (\<lambda>i. \<not> on_seam w p i) ?A @ ?B"
    using IH(1) old by (simp only:)
  also have "\<dots> = without_seam w (p @ [y]) (?A @ ?M @ ?B)"
    unfolding without_seam_def pick_append lens using a m b by simp
  also have "\<dots> = without_seam w (p @ [y]) d"
    by (rule arg_cong [OF d [symmetric]])
  finally have "carve_path (int w) (p @ [y]) d = without_seam w (p @ [y]) d" .
  moreover have "length (carve_path (int w) (p @ [y]) d) + 4 * n = length d"
    using IH(2) sp inside n by (simp add: carve_path_snoc)
  ultimately show ?case by simp
qed

text \<open>
  C2. For an image of width \<open>W\<close> and height \<open>H\<close> with a buffer of \<open>W * H * 4\<close> samples and a valid
  seam (the entry at index \<open>i\<close> in row \<open>i\<close>, for rows \<open>0\<close> to \<open>H - 1\<close>, each column below \<open>W\<close>),
  the removal loop of \<^verbatim>\<open>carveSeam\<close> yields the input buffer without the 4-sample run at the flat
  offset \<open>row * W * 4 + column * 4\<close> of each seam entry, the other samples in their order; its
  length is \<open>(W - 1) * H * 4\<close>; and when that seam is the one the search returns, \<^verbatim>\<open>carveSeam\<close>
  returns the image with this buffer, width \<open>W - 1\<close> and the same height.
\<close>

theorem carveSeam_removes_seam:
  assumes "valid_seam H W p" and "length d = W * H * 4"
  shows "carve_path (int W) p d = without_seam W p d \<and>
         length (carve_path (int W) p d) = (W - 1) * H * 4 \<and>
         (\<forall>sobelFilter img energyMap.
            width img = int W \<and> height img = int H \<and> data img = d \<and>
            getEnergyMatrix sobelFilter img = Inr energyMap \<and>
            pathfind energyMap = Some (Inr (Some p)) \<longrightarrow>
            carveSeam sobelFilter img =
              Some (Returned, \<lparr>data = without_seam W p d, width = int W - 1, height = int H\<rparr>))"
proof -
  have "H * W * 4 \<le> length d" using assms(2) by (simp add: mult.commute)
  from carve_path_without_seam [OF assms(1) this]
  have eq: "carve_path (int W) p d = without_seam W p d"
    and len: "length (carve_path (int W) p d) + 4 * H = length d"
    by blast+
  have "length (carve_path (int W) p d) = W * H * 4 - 4 * H"
    using len assms(2) by simp
  also have "\<dots> = (W - 1) * H * 4"
    by (simp add: algebra_simps)
  finally have l: "length (carve_path (int W) p d) = (W - 1) * H * 4" .
  have "carveSeam sobelFilter img =
          Some (Returned, \<lparr>data = without_seam W p d, width = int W - 1, height = int H\<rparr>)"
    if "width img = int W" "height img = int H" "data img = d"
      "getEnergyMatrix sobelFilter img = Inr energyMap" "pathfind energyMap = Some (Inr (Some p))"
    for sobelFilter and img :: image and energyMap
    using that eq by (simp add: carveSeam_def Let_def)
  then show ?thesis
    using eq l by blast
qed

theorem carveSeam_removes_seam_witness:
  "valid_seam 2 2 [(0, 1), (1, 0)] \<and>
   length [1, 2, 3, 4, 5, 6, 7, 8, 9, 10, 11, 12, 13, 14, 15, 16 :: nat] = 2 * 2 * 4 \<and>
   without_seam 2 [(0, 1), (1, 0)] [1, 2, 3, 4, 5, 6, 7, 8, 9, 10, 11, 12, 13, 14, 15, 16 :: nat]
     = [1, 2, 3, 4, 13, 14, 15, 16] \<and>
   length (carve_path 2 [(0, 1), (1, 0)] [1, 2, 3, 4, 5, 6, 7, 8, 9, 10, 11, 12, 13, 14, 15, 16]) = (2 - 1) * 2 * 4 \<and>
   carveSeam (\<lambda>i. map int (data i))
       \<lparr>data = [1, 2, 3, 4, 5, 6, 7, 8, 9, 10, 11, 12, 13, 14, 15, 16], width = 2, height = 2\<rparr>
     = Some (Returned, \<lparr>data = [1, 2, 3, 4, 13, 14, 15, 16], width = 1, height = 2\<rparr>)"
proof -
  let ?d = "[1, 2, 3, 4, 5, 6, 7, 8, 9, 10, 11, 12, 13, 14, 15, 16 :: nat]"
  let ?p = "[(0, 1), (1, 0)] :: coords list"
  let ?img = "\<lparr>data = ?d, width = 2, height = 2\<rparr>"
  let ?sobel = "\<lambda>i :: image. map int (data i)"
  have v: "valid_seam 2 2 ?p"
    by (simp add: valid_seam_def upt_rec)
  have l: "length ?d = 2 * 2 * 4" by simp
  have e: "getEnergyMatrix ?sobel ?img = Inr [[Some 6, Some 18], [Some 30, Some 42]]"
    by code_simp
  have f: "pathfind [[Some 6, Some 18], [Some 30, Some 42]] = Some (Inr (Some ?p))"
    by code_simp
  have c: "carve_path 2 ?p ?d = [1, 2, 3, 4, 13, 14, 15, 16]"
    by code_simp
  note t = carveSeam_removes_seam [OF v l]
  have i2: "int 2 = 2" by simp
  have "carve_path (int 2) ?p ?d = without_seam 2 ?p ?d"
    using t by (rule conjunct1)
  then have 1: "without_seam 2 ?p ?d = [1, 2, 3, 4, 13, 14, 15, 16]"
    unfolding i2 c by (rule sym)
  have "length (carve_path (int 2) ?p ?d) = (2 - 1) * 2 * 4"
    using t by blast
  then have 2: "length (carve_path 2 ?p ?d) = (2 - 1) * 2 * 4"
    unfolding i2 .
  have "width ?img = int 2 \<and> height ?img = int 2 \<and> data ?img = ?d \<and>
        getEnergyMatrix ?sobel ?img = Inr [[Some 6, Some 18], [Some 30, Some 42]] \<and>
        pathfind [[Some 6, Some 18], [Some 30, Some 42]] = Some (Inr (Some ?p))"
    using e f by simp
  then have "carveSeam ?sobel ?img =
      Some (Returned, \<lparr>data = without_seam 2 ?p ?d, width = int 2 - 1, height = int 2\<rparr>)"
    using t by blast
  then have 3: "carveSeam ?sobel ?img =
      Some (Returned, \<lparr>data = [1, 2, 3, 4, 13, 14, 15, 16], width = 1, height = 2\<rparr>)"
    unfolding 1 by simp
  show ?thesis
    using v l 1 2 3 by (intro conjI)
qed

section \<open>Failures of carveSeam\<close>

text \<open>
  C7. When the seam search yields no seam (\<^verbatim>\<open>pathfind\<close> returns \<^verbatim>\<open>undefined\<close>), \<^verbatim>\<open>carveSeam\<close> fails: it
  throws (a \<^verbatim>\<open>TypeError\<close>, reading \<^verbatim>\<open>path.length\<close>) and leaves the caller's image as it was, its
  data buffer and its width included.
\<close>

theorem carveSeam_no_seam_unmodified:
  assumes "getEnergyMatrix sobelFilter img = Inr energyMap" and "pathfind energyMap = Some (Inr None)"
  shows "\<exists>img'. carveSeam sobelFilter img = Some (Threw TypeError, img') \<and> img' = img \<and>
           data img' = data img \<and> width img' = width img"
  using assms by (simp add: carveSeam_def)

theorem carveSeam_no_seam_unmodified_witness:
  "getEnergyMatrix (\<lambda>i. map int (data i)) \<lparr>data = [1, 2, 3, 4, 5, 6, 7, 8], width = 1, height = 2\<rparr>
     = Inr [[Some 6], [Some 18]] \<and>
   pathfind [[Some 6], [Some 18]] = Some (Inr None) \<and>
   carveSeam (\<lambda>i. map int (data i)) \<lparr>data = [1, 2, 3, 4, 5, 6, 7, 8], width = 1, height = 2\<rparr>
     = Some (Threw TypeError, \<lparr>data = [1, 2, 3, 4, 5, 6, 7, 8], width = 1, height = 2\<rparr>)"
proof -
  let ?img = "\<lparr>data = [1, 2, 3, 4, 5, 6, 7, 8], width = 1, height = 2\<rparr>"
  have e: "getEnergyMatrix (\<lambda>i. map int (data i)) ?img = Inr [[Some 6], [Some 18]]"
    by code_simp
  have f: "pathfind [[Some 6], [Some 18]] = Some (Inr None)"
    by code_simp
  from carveSeam_no_seam_unmodified [OF e f] show ?thesis
    using e f by simp
qed

lemma pathfind_narrow:
  assumes "2 \<le> length m" and "length (m ! 0) \<le> 1"
  shows "pathfind m = Some (Inr None)"
proof (cases "cell m 0 (length (m ! 0) div 2)")
  case None
  then show ?thesis
    using assms by (auto simp: pathfind_def Let_def)
next
  case (Some d0)
  then have "m ! 0 \<noteq> []"
    by (auto simp: cell_def split: if_splits)
  then have cols: "length (m ! 0) = 1"
    using assms(2) by (cases "m ! 0") auto
  define s where "s = initial (length m) (Suc 0) d0"
  let ?e = "\<lparr>row = 0, col = 0, distance = d0\<rparr>"
  have q: "queue s = [?e]" by (simp add: s_def initial_def)
  have fr: "front s = ?e" by (simp add: front_def q)
  have "visited s = replicate (length m) [False]" by (simp add: s_def initial_def)
  moreover have "0 < length m" using assms(1) by (cases m) auto
  ultimately have nv: "\<not> get2 (visited s) (pos (front s))"
    by (simp add: fr pos_def get2_def)
  have more: "Suc (row (front s)) \<noteq> length m"
    using assms(1) by (simp add: fr)
  have nb: "neighbours m (length m) (Suc 0) (front s) (marked s) = marked s"
    by (simp add: neighbours_eq fr)
  have empty: "queue (marked s) = []"
    by (simp add: popped_def q)
  have "pathfind_loop m (length m) (Suc 0) s = pathfind_loop m (length m) (Suc 0) (marked s)"
    using q nv more nb by (subst pathfind_loop_unfold) simp
  also have "\<dots> = Some None"
    using empty by (subst pathfind_loop_unfold) simp
  finally show ?thesis
    using pathfind_started(2) [OF Some] cols by (simp add: s_def)
qed

text \<open>
  C8, as the code has it. \<^verbatim>\<open>carveSeam\<close> has no validation step. An image of width 1 and height 1 is
  carved to width 0; and an image of width 2 and height 2 whose buffer holds 15 samples, not
  \<open>2 * 2 * 4\<close>, is carved to a buffer of 7 samples: neither is rejected.
\<close>

theorem carveSeam_accepts_degenerate:
  "carveSeam (\<lambda>i. [1, 2, 3, 4]) \<lparr>data = [1, 2, 3, 4], width = 1, height = 1\<rparr>
     = Some (Returned, \<lparr>data = [], width = 0, height = 1\<rparr>) \<and>
   carveSeam (\<lambda>i. [1, 2, 3, 4, 5, 6, 7, 8, 9, 10, 11, 12, 13, 14, 15, 16])
       \<lparr>data = [1, 2, 3, 4, 5, 6, 7, 8, 9, 10, 11, 12, 13, 14, 15], width = 2, height = 2\<rparr>
     = Some (Returned, \<lparr>data = [1, 2, 3, 4, 13, 14, 15], width = 1, height = 2\<rparr>)"
  by code_simp

text \<open>
  C8, amended. \<^verbatim>\<open>carveSeam\<close> does not check the buffer's length, and it computes the energy matrix
  and runs the search before anything fails. For every image of height 0 or less, and for every
  image of width 1 or less and height 2 or more, whatever the filter returns, the step throws and
  leaves the image unmodified.
\<close>

theorem carveSeam_rejects_without_seam:
  assumes "height img \<le> 0 \<or> (width img \<le> 1 \<and> 2 \<le> height img)"
  shows "\<exists>e. carveSeam sobelFilter img = Some (Threw e, img)"
proof (cases "height img < 0 \<or> (0 < height img \<and> width img < 0)")
  case True
  then show ?thesis
    by (simp add: carveSeam_def getEnergyMatrix_def Let_def)
next
  case False
  then have h: "0 \<le> height img" by auto
  show ?thesis
  proof (cases "height img = 0")
    case True
    then have "getEnergyMatrix sobelFilter img = Inr []"
      by (simp add: getEnergyMatrix_def Let_def)
    then show ?thesis
      by (simp add: carveSeam_def pathfind_def)
  next
    case nz: False
    then have w: "0 \<le> width img" "width img \<le> 1" and h2: "2 \<le> height img"
      using False h assms by auto
    define em where "em = map (\<lambda>y. map (energy_at (sobelFilter img) (width img) y) [0..<nat (width img)])
        [0..<nat (height img)]"
    have em: "getEnergyMatrix sobelFilter img = Inr em"
      unfolding em_def using w(1) h by (rule getEnergyMatrix_eq)
    have "2 \<le> length em" using h2 by (simp add: em_def)
    moreover have "length (em ! 0) \<le> 1" using w h2 by (simp add: em_def)
    ultimately have "pathfind em = Some (Inr None)" by (rule pathfind_narrow)
    then show ?thesis
      using em by (simp add: carveSeam_def)
  qed
qed

theorem carveSeam_rejects_without_seam_witness:
  "(width \<lparr>data = [1, 2, 3, 4, 5, 6, 7, 8], width = 1, height = 2\<rparr> \<le> 1 \<and>
    2 \<le> height \<lparr>data = [1, 2, 3, 4, 5, 6, 7, 8], width = 1, height = 2\<rparr>) \<and>
   carveSeam (\<lambda>i. map int (data i)) \<lparr>data = [1, 2, 3, 4, 5, 6, 7, 8], width = 1, height = 2\<rparr>
     = Some (Threw TypeError, \<lparr>data = [1, 2, 3, 4, 5, 6, 7, 8], width = 1, height = 2\<rparr>)"
proof -
  let ?img = "\<lparr>data = [1, 2, 3, 4, 5, 6, 7, 8], width = 1, height = 2\<rparr>"
  have h: "height ?img \<le> 0 \<or> (width ?img \<le> 1 \<and> 2 \<le> height ?img)" by simp
  from carveSeam_rejects_without_seam [OF h, of "\<lambda>i. map int (data i)"]
  obtain e where e: "carveSeam (\<lambda>i. map int (data i)) ?img = Some (Threw e, ?img)" by blast
  moreover have "carveSeam (\<lambda>i. map int (data i)) ?img = Some (Threw TypeError, ?img)"
    by code_simp
  ultimately show ?thesis by simp
qed

section \<open>carve\<close>

lemma carveSeam_returned:
  assumes "carveSeam sobelFilter img = Some (Returned, img')"
  shows "width img' = width img - 1" and "0 \<le> width img" and "height img' = height img"
proof -
  from assms obtain energyMap p where em: "getEnergyMatrix sobelFilter img = Inr energyMap"
    and p: "pathfind energyMap = Some (Inr (Some p))"
    and img': "img' = img\<lparr>data := carve_path (width img) p (data img), width := width img - 1\<rparr>"
    by (auto simp: carveSeam_def Let_def split: sum.splits option.splits)
  show "width img' = width img - 1" "height img' = height img"
    by (simp_all add: img')
  have "energyMap \<noteq> []"
    using p by (auto simp: pathfind_def)
  then show "0 \<le> width img"
    using em by (auto simp: getEnergyMatrix_def Let_def split: if_splits)
qed

text \<open>
  The numbers of the loop's condition are doubles. \<open>fl x\<close> is the double nearest to the rational
  \<open>x\<close>: 53 significant bits above \<open>2 ^ - 1022\<close>, multiples of \<open>2 ^ - 1074\<close> below it, a tie going to
  the even neighbour. \<open>exponent x\<close> is the \<open>e\<close> with \<open>2 ^ e \<le> \<bar>x\<bar> < 2 ^ (e + 1)\<close>. The overflow to
  \<^verbatim>\<open>Infinity\<close> at \<open>2 ^ 1024\<close> is left out, and with it \<^verbatim>\<open>NaN\<close>: an \<^verbatim>\<open>amount\<close> is a finite double,
  a width an integer below \<open>2 ^ 53\<close>.
\<close>

definition pow2 :: "int \<Rightarrow> rat" where
  "pow2 e = (if 0 \<le> e then 2 ^ nat e else 1 / 2 ^ nat (- e))"

definition exponent :: "rat \<Rightarrow> int" where
  "exponent x = (let (n, d) = quotient_of \<bar>x\<bar>; e = bitlen n - bitlen d in
                 if pow2 e \<le> \<bar>x\<bar> then e else e - 1)"

definition round_even :: "rat \<Rightarrow> int" where
  "round_even q = (let f = \<lfloor>q\<rfloor>; r = q - of_int f in
                   if r < 1 / 2 \<or> (r = 1 / 2 \<and> even f) then f else f + 1)"

definition fl :: "rat \<Rightarrow> rat" where
  "fl x = (if x = 0 then 0 else
             let u = pow2 (max (exponent x) (- 1022) - 52) in of_int (round_even (x / u)) * u)"

text \<open>
  The loop of \<^verbatim>\<open>carve\<close>. \<^verbatim>\<open>result\<close> and \<^verbatim>\<open>image\<close> name one object, which \<^verbatim>\<open>carveSeam\<close> mutates and
  returns: the \<^verbatim>\<open>image.width\<close> of the loop's condition is the width of the image as the last
  step left it. The condition \<^verbatim>\<open>i < image.width*(amount/100)\<close> is computed as the code computes
  it: the quotient is rounded to a double, then the product is; \<open>amount\<close> is the value of the
  double passed. The model leaves the writes to the page and the 10 ms pause out, and returns, with
  how the loop ended and the image, the value of \<^verbatim>\<open>i\<close>: the number of calls of \<^verbatim>\<open>carveSeam\<close> that
  returned.
\<close>

function carve_loop :: "(image \<Rightarrow> int list) \<Rightarrow> rat \<Rightarrow> nat \<Rightarrow> image \<Rightarrow> (ending \<times> image \<times> nat) option" where
  "carve_loop sobelFilter amount i result =
     (if of_nat i < fl (of_int (width result) * fl (amount / 100)) then
        (case carveSeam sobelFilter result of
           None \<Rightarrow> None
         | Some (Threw err, result') \<Rightarrow> Some (Threw err, result', i)
         | Some (Returned, result') \<Rightarrow> carve_loop sobelFilter amount (i + 1) result')
      else Some (Returned, result, i))"
  by pat_completeness auto
termination
proof (relation "measure (\<lambda>(sobelFilter, amount, i, result). nat (width result + 1))")
  show "wf (measure (\<lambda>(sobelFilter, amount, i, result). nat (width result + 1)))" by simp
next
  fix sobelFilter :: "image \<Rightarrow> int list" and amount :: rat and i :: nat and result :: image
    and x2 :: "ending \<times> image" and x1 :: ending and result' :: image
  assume "carveSeam sobelFilter result = Some x2" and "(x1, result') = x2" and "x1 = Returned"
  then have "carveSeam sobelFilter result = Some (Returned, result')" by simp
  from carveSeam_returned(1,2) [OF this]
  show "((sobelFilter, amount, i + 1, result'), (sobelFilter, amount, i, result))
          \<in> measure (\<lambda>(sobelFilter, amount, i, result). nat (width result + 1))"
    by simp
qed

declare carve_loop.simps [simp del]

definition carve :: "(image \<Rightarrow> int list) \<Rightarrow> image \<Rightarrow> rat \<Rightarrow> (ending \<times> image \<times> nat) option" where
  "carve sobelFilter img amount = carve_loop sobelFilter amount 0 img"

text \<open>
  The rounding decides the count. On 32 columns and an amount of 28 the eighth test of the
  condition compares 7 with \<open>25 * 0.28\<close>, which is 7 over the rationals and
  \<open>7 + 2 ^ - 50\<close> in doubles: the loop makes an eighth call.
\<close>

lemma carve_condition_rounded:
  "fl (28 / 100) = 5044031582654956 / 2 ^ 54 \<and>
   fl (25 * fl (28 / 100)) = 7 + 1 / 2 ^ 50 \<and> \<not> 7 < 25 * (28 / 100 :: rat) \<and>
   map_option (\<lambda>(e, r, n). (e, width r, n))
     (carve (\<lambda>i. map int (data i)) \<lparr>data = replicate 128 0, width = 32, height = 1\<rparr> 28)
     = Some (Returned, 24, 8)"
proof -
  have "fl (28 / 100) = 5044031582654956 / 2 ^ 54" by code_simp
  moreover have "fl (25 * fl (28 / 100)) = 7 + 1 / 2 ^ 50" by code_simp
  moreover have "\<not> 7 < 25 * (28 / 100 :: rat)" by simp
  moreover have "map_option (\<lambda>(e, r, n). (e, width r, n))
     (carve (\<lambda>i. map int (data i)) \<lparr>data = replicate 128 0, width = 32, height = 1\<rparr> 28)
     = Some (Returned, 24, 8)"
    by code_simp
  ultimately show ?thesis by (intro conjI)
qed

text \<open>
  C5. The count of the loop against \<open>floor (W * fraction)\<close> and against the documentation of
  \<^verbatim>\<open>amount\<close>, the percentage to narrow the image by. On an image of width 4 and height 1 and an
  amount of 75, \<^verbatim>\<open>carve\<close> returns after 2 calls of \<^verbatim>\<open>carveSeam\<close>, each on the image that the call
  before it returned, with an image of width 2: narrowed by 50 percent, where
  \<open>floor (4 * 0.75)\<close>, clamped to \<open>4 - 1\<close>, is 3. The condition is evaluated before each call on the
  width that the last call left: \<open>0 < 4 * 0.75 = 3\<close>, then \<open>1 < 3 * 0.75 = 2.25\<close>, then
  \<open>2 < 2 * 0.75 = 1.5\<close> fails. Each of these numbers is a double: no rounding takes part.
\<close>

theorem carve_count_not_floor:
  "carve (\<lambda>i. map int (data i))
       \<lparr>data = [1, 2, 3, 4, 5, 6, 7, 8, 9, 10, 11, 12, 13, 14, 15, 16], width = 4, height = 1\<rparr> 75
     = Some (Returned, \<lparr>data = [1, 2, 3, 4, 13, 14, 15, 16], width = 2, height = 1\<rparr>, 2) \<and>
   carveSeam (\<lambda>i. map int (data i))
       \<lparr>data = [1, 2, 3, 4, 5, 6, 7, 8, 9, 10, 11, 12, 13, 14, 15, 16], width = 4, height = 1\<rparr>
     = Some (Returned, \<lparr>data = [1, 2, 3, 4, 5, 6, 7, 8, 13, 14, 15, 16], width = 3, height = 1\<rparr>) \<and>
   carveSeam (\<lambda>i. map int (data i))
       \<lparr>data = [1, 2, 3, 4, 5, 6, 7, 8, 13, 14, 15, 16], width = 3, height = 1\<rparr>
     = Some (Returned, \<lparr>data = [1, 2, 3, 4, 13, 14, 15, 16], width = 2, height = 1\<rparr>) \<and>
   fl (75 / 100) = 3 / 4 \<and>
   fl (4 * fl (75 / 100)) = 3 \<and> fl (3 * fl (75 / 100)) = 9 / 4 \<and> fl (2 * fl (75 / 100)) = 3 / 2 \<and>
   min (nat \<lfloor>4 * (75 / 100 :: rat)\<rfloor>) (4 - 1) = 3"
proof -
  have "carve (\<lambda>i. map int (data i))
       \<lparr>data = [1, 2, 3, 4, 5, 6, 7, 8, 9, 10, 11, 12, 13, 14, 15, 16], width = 4, height = 1\<rparr> 75
     = Some (Returned, \<lparr>data = [1, 2, 3, 4, 13, 14, 15, 16], width = 2, height = 1\<rparr>, 2)"
    by code_simp
  moreover have "carveSeam (\<lambda>i. map int (data i))
       \<lparr>data = [1, 2, 3, 4, 5, 6, 7, 8, 9, 10, 11, 12, 13, 14, 15, 16], width = 4, height = 1\<rparr>
     = Some (Returned, \<lparr>data = [1, 2, 3, 4, 5, 6, 7, 8, 13, 14, 15, 16], width = 3, height = 1\<rparr>)"
    by code_simp
  moreover have "carveSeam (\<lambda>i. map int (data i))
       \<lparr>data = [1, 2, 3, 4, 5, 6, 7, 8, 13, 14, 15, 16], width = 3, height = 1\<rparr>
     = Some (Returned, \<lparr>data = [1, 2, 3, 4, 13, 14, 15, 16], width = 2, height = 1\<rparr>)"
    by code_simp
  moreover have "fl (75 / 100) = 3 / 4" by code_simp
  moreover have "fl (4 * fl (75 / 100)) = 3" by code_simp
  moreover have "fl (3 * fl (75 / 100)) = 9 / 4" by code_simp
  moreover have "fl (2 * fl (75 / 100)) = 3 / 2" by code_simp
  moreover have "min (nat \<lfloor>4 * (75 / 100 :: rat)\<rfloor>) (4 - 1) = 3" by simp
  ultimately show ?thesis by (intro conjI)
qed

section \<open>The order of the queue\<close>






section \<open>The returned seam has the least energy\<close>

text \<open>The number in a cell, and the total energy of a list of cells.\<close>

definition value_at :: "matrix \<Rightarrow> coords \<Rightarrow> int" where
  "value_at m x = (case cell m (fst x) (snd x) of Some v \<Rightarrow> v | None \<Rightarrow> 0)"

definition energy :: "matrix \<Rightarrow> coords list \<Rightarrow> int" where
  "energy m p = sum_list (map (value_at m) p)"

text \<open>
  The invariant of the distances, for a matrix of numbers that are not negative: a visited
  cell's distance is at most every queue entry's; a reached cell's distance is its own number,
  in row 0, and otherwise its predecessor's distance plus its own number, the predecessor being
  visited; and a visited cell outside \<open>U\<close> has relaxed the cells it links to.
\<close>

definition inv_opt :: "nat \<Rightarrow> nat \<Rightarrow> matrix \<Rightarrow> coords set \<Rightarrow> search \<Rightarrow> bool" where
  "inv_opt rows cols m U s =
     ((\<forall>x e. inb rows cols x \<and> get2 (visited s) x \<and> e \<in> set (queue s) \<longrightarrow>
         (\<exists>d. get2 (distances s) x = Some d \<and> d \<le> distance e)) \<and>
      (\<forall>x d. inb rows cols x \<and> get2 (distances s) x = Some d \<longrightarrow>
         (if fst x = 0 then d = value_at m x
          else \<exists>y dy. get2 (previous s) x = Some y \<and> get2 (visited s) y \<and>
                 get2 (distances s) y = Some dy \<and> d = dy + value_at m x)) \<and>
      (\<forall>x y. inb rows cols x \<and> get2 (visited s) x \<and> x \<notin> U \<and> inb rows cols y \<and> link x y \<longrightarrow>
         (\<exists>dx dy. get2 (distances s) x = Some dx \<and> get2 (distances s) y = Some dy \<and>
            dy \<le> dx + value_at m y)))"

text \<open>While the neighbours of the popped entry \<open>e\<close> are relaxed.\<close>

definition at_front :: "nat \<Rightarrow> nat \<Rightarrow> node \<Rightarrow> search \<Rightarrow> bool" where
  "at_front rows cols e s =
     (get2 (distances s) (pos e) = Some (distance e) \<and> get2 (visited s) (pos e) \<and>
      (\<forall>x. inb rows cols x \<and> get2 (visited s) x \<longrightarrow>
         (\<exists>d. get2 (distances s) x = Some d \<and> d \<le> distance e)))"

lemma inv_opt_relax_to:
  assumes opt: "inv_opt rows cols m U s" and fr: "at_front rows cols e s"
    and st: "inv_struct rows cols s"
    and c: "Suc (row e) < rows" "c < cols" and en: "cell m (Suc (row e)) c = Some en" "0 \<le> en"
  shows "inv_opt rows cols m U (relax_to m e c s) \<and> at_front rows cols e (relax_to m e c s)"
proof -
  let ?s' = "relax_to m e c s"
  let ?w = "(Suc (row e), c)"
  let ?nd = "distance e + en"
  have sh: "shape rows cols (distances s)" "shape rows cols (previous s)"
    using st by (simp_all add: inv_struct_def)
  have w: "inb rows cols ?w" using c by (simp add: inb_def)
  have vw: "value_at m ?w = en" using en(1) by (simp add: value_at_def)
  from sh c en(1) show ?thesis
  proof (cases rule: relax_to_cases)
    case same
    then show ?thesis using opt fr by simp
  next
    case lower
    have nvw: "\<not> get2 (visited s) ?w"
    proof
      assume "get2 (visited s) ?w"
      then obtain d where "get2 (distances s) ?w = Some d" "d \<le> distance e"
        using fr w unfolding at_front_def by blast
      then show False using lower(1) en(2) by (simp add: below_def)
    qed
    have keep: "get2 (distances ?s') x = get2 (distances s) x" if "get2 (visited s) x" for x
      using that nvw by (auto simp: lower(4))
    have notw: "pos e \<noteq> ?w" by (simp add: pos_def)
    have 1: "\<exists>d. get2 (distances ?s') x = Some d \<and> d \<le> distance e'"
      if a: "inb rows cols x" "get2 (visited ?s') x" "e' \<in> set (queue ?s')" for x e'
    proof (cases "e' \<in> set (queue s)")
      case True
      then show ?thesis
        using opt a(1) a(2) keep [of x] unfolding inv_opt_def visited_relax_to by metis
    next
      case False
      then have "distance e' = ?nd" using a(3) by (auto simp: lower(2))
      moreover obtain d where "get2 (distances s) x = Some d" "d \<le> distance e"
        using fr a(1) a(2) unfolding at_front_def visited_relax_to by blast
      ultimately show ?thesis
        using keep [of x] a(2) en(2) by simp
    qed
    have 2: "if fst x = 0 then d = value_at m x
             else \<exists>y dy. get2 (previous ?s') x = Some y \<and> get2 (visited ?s') y \<and>
                    get2 (distances ?s') y = Some dy \<and> d = dy + value_at m x"
      if a: "inb rows cols x" "get2 (distances ?s') x = Some d" for x d
    proof (cases "x = ?w")
      case True
      then have "d = ?nd" using a(2) by (simp add: lower(4))
      moreover have "get2 (previous ?s') x = Some (pos e)" using True by (simp add: lower(5))
      moreover have "get2 (visited ?s') (pos e)" using fr by (simp add: at_front_def)
      moreover have "get2 (distances ?s') (pos e) = Some (distance e)"
        using fr notw by (simp add: at_front_def lower(4))
      ultimately show ?thesis using True vw by simp
    next
      case False
      then have old: "get2 (distances s) x = Some d" using a(2) by (simp add: lower(4))
      show ?thesis
      proof (cases "fst x = 0")
        case True
        then show ?thesis using opt a(1) old unfolding inv_opt_def by metis
      next
        case nz: False
        then obtain y dy where y: "get2 (previous s) x = Some y" "get2 (visited s) y"
          "get2 (distances s) y = Some dy" "d = dy + value_at m x"
          using opt a(1) old unfolding inv_opt_def by metis
        then have "get2 (previous ?s') x = Some y" "get2 (visited ?s') y"
          "get2 (distances ?s') y = Some dy"
          using False keep [of y] by (simp_all add: lower(5))
        then show ?thesis using nz y(4) by auto
      qed
    qed
    have 3: "\<exists>dx dy. get2 (distances ?s') x = Some dx \<and> get2 (distances ?s') y = Some dy \<and>
               dy \<le> dx + value_at m y"
      if a: "inb rows cols x" "get2 (visited ?s') x" "x \<notin> U" "inb rows cols y" "link x y" for x y
    proof -
      obtain dx dy where d: "get2 (distances s) x = Some dx" "get2 (distances s) y = Some dy"
        "dy \<le> dx + value_at m y"
        using opt a unfolding inv_opt_def visited_relax_to by metis
      have x: "get2 (distances ?s') x = Some dx" using keep [of x] a(2) d(1) by simp
      show ?thesis
      proof (cases "y = ?w")
        case True
        then have "?nd < dy" using lower(1) d(2) by (simp add: below_def)
        then show ?thesis using True x d(3) by (simp add: lower(4))
      next
        case False
        then show ?thesis using x d by (simp add: lower(4))
      qed
    qed
    have 4: "\<exists>d. get2 (distances ?s') x = Some d \<and> d \<le> distance e"
      if a: "inb rows cols x" "get2 (visited ?s') x" for x
      using fr a keep [of x] unfolding at_front_def visited_relax_to by metis
    have "inv_opt rows cols m U ?s'"
      unfolding inv_opt_def using 1 2 3 by blast
    moreover have "at_front rows cols e ?s'"
      unfolding at_front_def using 4 fr notw by (simp add: at_front_def lower(4) del: split_paired_All)
    ultimately show ?thesis by simp
  qed
qed

lemma inv_opt_popped:
  assumes "inv_opt rows cols m U s"
  shows "inv_opt rows cols m U (popped s)"
proof -
  have "e \<in> set (queue s)" if "e \<in> set (queue (popped s))" for e
    using that popped_subset [of s] by blast
  then show ?thesis
    using assms unfolding inv_opt_def popped_fields by blast
qed

text \<open>The entry popped for a cell that is not visited carries the cell's distance.\<close>

lemma front_distance:
  assumes re: "inv_reach rows cols s" and st: "inv_struct rows cols s" and ne: "queue s \<noteq> []"
    and nv: "\<not> get2 (visited s) (pos (front s))"
  shows "get2 (distances s) (pos (front s)) = Some (distance (front s))"
proof -
  have fr: "front s \<in> set (queue s)" using ne by (rule front_in_queue)
  have i: "inb rows cols (pos (front s))" using inv_struct_front [OF st ne] by simp
  obtain d where d: "get2 (distances s) (pos (front s)) = Some d" "d \<le> distance (front s)"
    using re fr unfolding inv_reach_def by blast
  then obtain e where "e \<in> set (queue s)" "distance e = d"
    using re i nv unfolding inv_reach_def by blast
  then have "distance (front s) \<le> d" using front_least [of e s] by simp
  then show ?thesis using d by simp
qed

lemma inv_opt_marked:
  assumes opt: "inv_opt rows cols m {} s" and re: "inv_reach rows cols s"
    and st: "inv_struct rows cols s" and ne: "queue s \<noteq> []"
    and nv: "\<not> get2 (visited s) (pos (front s))"
  shows "inv_opt rows cols m {pos (front s)} (marked s)" and "at_front rows cols (front s) (marked s)"
proof -
  let ?u = "pos (front s)"
  have fr: "inb rows cols ?u"
    using inv_struct_front [OF st ne] by simp
  have vis: "get2 (visited (marked s)) x = (x = ?u \<or> get2 (visited s) x)" for x
    using st fr by (intro get2_visited_marked) (simp_all add: inv_struct_def)
  have du: "get2 (distances s) ?u = Some (distance (front s))"
    using re st ne nv by (rule front_distance)
  have sub: "e \<in> set (queue s)" if "e \<in> set (queue (popped s))" for e
    using that popped_subset [of s] by blast
  have below: "\<exists>d. get2 (distances s) x = Some d \<and> d \<le> distance (front s)"
    if a: "inb rows cols x" "get2 (visited (marked s)) x" for x
  proof (cases "x = ?u")
    case True
    then show ?thesis using du by simp
  next
    case False
    then have "get2 (visited s) x" using a(2) vis by simp
    then show ?thesis
      using opt a(1) front_in_queue [OF ne] unfolding inv_opt_def by blast
  qed
  have 1: "\<exists>d. get2 (distances s) x = Some d \<and> d \<le> distance e"
    if a: "inb rows cols x" "get2 (visited (marked s)) x" "e \<in> set (queue (popped s))" for x e
  proof -
    obtain d where "get2 (distances s) x = Some d" "d \<le> distance (front s)"
      using below a(1) a(2) by blast
    moreover have "distance (front s) \<le> distance e"
      using front_least [of e s] sub [OF a(3)] by simp
    ultimately show ?thesis by auto
  qed
  have 2: "if fst x = 0 then d = value_at m x
           else \<exists>y dy. get2 (previous s) x = Some y \<and> get2 (visited (marked s)) y \<and>
                  get2 (distances s) y = Some dy \<and> d = dy + value_at m x"
    if a: "inb rows cols x" "get2 (distances s) x = Some d" for x d
  proof (cases "fst x = 0")
    case True
    then show ?thesis using opt a unfolding inv_opt_def by metis
  next
    case False
    then obtain y dy where "get2 (previous s) x = Some y" "get2 (visited s) y"
      "get2 (distances s) y = Some dy" "d = dy + value_at m x"
      using opt a unfolding inv_opt_def by metis
    then show ?thesis using False vis by auto
  qed
  have 3: "\<exists>dx dy. get2 (distances s) x = Some dx \<and> get2 (distances s) y = Some dy \<and>
             dy \<le> dx + value_at m y"
    if a: "inb rows cols x" "get2 (visited (marked s)) x" "x \<notin> {?u}" "inb rows cols y" "link x y" for x y
  proof -
    have "get2 (visited s) x" using a(2) a(3) vis by simp
    then show ?thesis using opt a(1) a(4) a(5) unfolding inv_opt_def by blast
  qed
  show "inv_opt rows cols m {?u} (marked s)"
    unfolding inv_opt_def marked_fields using 1 2 3 by blast
  show "at_front rows cols (front s) (marked s)"
    unfolding at_front_def marked_fields using du vis below by blast
qed

lemma opt_step:
  assumes g: "grid rows cols m" and nonneg: "\<forall>x. 0 \<le> value_at m x"
    and st: "inv_struct rows cols s" and re: "inv_reach rows cols s" and opt: "inv_opt rows cols m {} s"
    and ne: "queue s \<noteq> []" and nv: "\<not> get2 (visited s) (pos (front s))"
    and more: "Suc (row (front s)) \<noteq> rows"
  shows "inv_opt rows cols m {} (neighbours m rows cols (front s) (marked s))"
proof -
  let ?e = "front s"
  let ?P = "\<lambda>s'. inv_struct rows cols s' \<and> rooted cols (previous s') (pos ?e) \<and>
                 inv_reach rows cols s' \<and> inv_opt rows cols m {pos ?e} s' \<and> at_front rows cols ?e s'"
  let ?R = "\<lambda>c s'. \<exists>d. get2 (distances s') (Suc (row ?e), c) = Some d \<and>
                     d \<le> distance ?e + value_at m (Suc (row ?e), c)"
  let ?s' = "neighbours m rows cols ?e (marked s)"
  have fr: "inb rows cols (pos ?e)" "rooted cols (previous s) (pos ?e)"
    using inv_struct_front [OF st ne] by simp_all
  then have lt: "Suc (row ?e) < rows" "col ?e < cols"
    using more by (simp_all add: inb_def pos_def)
  have post: "?P ?s' \<and> (\<forall>c<cols. c = Suc (col ?e) \<or> col ?e = Suc c \<longrightarrow> ?R c ?s')"
  proof (rule neighbours_post [where P = ?P and R = ?R, OF _ lt])
    show "?P (marked s)"
      using inv_struct_marked [OF st] fr(2) inv_reach_marked [OF re st ne more]
        inv_opt_marked [OF opt re st ne nv] by simp
  next
    fix c s'
    assume P: "?P s'" and c: "c < cols" "c = Suc (col ?e) \<or> col ?e = Suc c"
    obtain en where en: "cell m (Suc (row ?e)) c = Some en"
      using grid_cell [OF g lt(1) c(1)] by blast
    then have v: "value_at m (Suc (row ?e), c) = en" by (simp add: value_at_def)
    then have en0: "0 \<le> en" using nonneg by metis
    have "inv_struct rows cols (relax_to m ?e c s') \<and> rooted cols (previous (relax_to m ?e c s')) (pos ?e)"
      using inv_struct_relax_to [OF _ fr(1) _ lt(1) c] P by blast
    moreover have "inv_reach rows cols (relax_to m ?e c s')"
      using inv_reach_relax_to(1) [OF _ _ lt(1) c(1) en] P by blast
    moreover have "inv_opt rows cols m {pos ?e} (relax_to m ?e c s') \<and> at_front rows cols ?e (relax_to m ?e c s')"
      using inv_opt_relax_to [OF _ _ _ lt(1) c(1) en en0] P by blast
    moreover have "?R c (relax_to m ?e c s')"
      using inv_reach_relax_to(2) [OF _ _ lt(1) c(1) en] P v by simp
    ultimately show "?P (relax_to m ?e c s') \<and> ?R c (relax_to m ?e c s')"
      by blast
  next
    fix c c' s'
    assume P: "?P s'" and R: "?R c s'" and c': "c' < cols" "c' = Suc (col ?e) \<or> col ?e = Suc c'"
    obtain en where en: "cell m (Suc (row ?e)) c' = Some en"
      using grid_cell [OF g lt(1) c'(1)] by blast
    from R obtain d where d: "get2 (distances s') (Suc (row ?e), c) = Some d"
      "d \<le> distance ?e + value_at m (Suc (row ?e), c)" by blast
    then obtain d' where "get2 (distances (relax_to m ?e c' s')) (Suc (row ?e), c) = Some d'" "d' \<le> d"
      using inv_reach_relax_to(3) [OF _ _ lt(1) c'(1) en] P by blast
    then show "?R c (relax_to m ?e c' s')"
      using d(2) by auto
  qed
  have mid: "inv_opt rows cols m {pos ?e} ?s'" and af: "at_front rows cols ?e ?s'"
    using post by blast+
  have "\<exists>dx dy. get2 (distances ?s') x = Some dx \<and> get2 (distances ?s') y = Some dy \<and>
          dy \<le> dx + value_at m y"
    if a: "inb rows cols x" "get2 (visited ?s') x" "inb rows cols y" "link x y" for x y
  proof (cases "x = pos ?e")
    case True
    then have y: "y = (Suc (row ?e), snd y)" "snd y = Suc (col ?e) \<or> col ?e = Suc (snd y)"
      using a(4) by (cases y; auto simp: link_def pos_def)+
    moreover have "snd y < cols" using a(3) by (simp add: inb_def)
    ultimately have "?R (snd y) ?s'" using post by blast
    then obtain d where "get2 (distances ?s') y = Some d" "d \<le> distance ?e + value_at m y"
      using y(1) by metis
    moreover have "get2 (distances ?s') x = Some (distance ?e)"
      using af True by (simp add: at_front_def)
    ultimately show ?thesis by simp
  next
    case False
    then show ?thesis
      using mid a unfolding inv_opt_def by blast
  qed
  then show ?thesis
    using mid unfolding inv_opt_def by blast
qed

lemma inv_opt_initial:
  assumes "0 < rows" and "0 < cols" and d0: "cell m 0 (cols div 2) = Some d0"
  shows "inv_opt rows cols m {} (initial rows cols d0)"
proof -
  let ?s = "initial rows cols d0"
  have start: "0 < rows" "cols div 2 < cols" using assms by simp_all
  have d: "get2 (distances ?s) x = (if x = (0, cols div 2) then Some d0 else None)"
    if "inb rows cols x" for x
    using get2_set2 [OF shape_replicate start, of None "Some d0" x] get2_replicate [OF that, of "None :: int option"]
    by (simp add: initial_def)
  have v: "\<not> get2 (visited ?s) x" if "inb rows cols x" for x
    using get2_replicate [OF that, of False] by (simp add: initial_def)
  have "if fst x = 0 then d' = value_at m x
        else \<exists>y dy. get2 (previous ?s) x = Some y \<and> get2 (visited ?s) y \<and>
               get2 (distances ?s) y = Some dy \<and> d' = dy + value_at m x"
    if a: "inb rows cols x" "get2 (distances ?s) x = Some d'" for x d'
  proof -
    have "x = (0, cols div 2)" "d' = d0"
      using a d [OF a(1)] by (auto split: if_splits)
    then show ?thesis using d0 by (simp add: value_at_def)
  qed
  then show ?thesis
    unfolding inv_opt_def using v by blast
qed

lemma inv_opt_sums:
  assumes "inv_opt rows cols m U s" and "inb rows cols x" and "get2 (distances s) x = Some d"
  shows "if fst x = 0 then d = value_at m x
         else \<exists>y dy. get2 (previous s) x = Some y \<and> get2 (visited s) y \<and>
                get2 (distances s) y = Some dy \<and> d = dy + value_at m x"
proof -
  have "\<forall>x d. inb rows cols x \<and> get2 (distances s) x = Some d \<longrightarrow>
         (if fst x = 0 then d = value_at m x
          else \<exists>y dy. get2 (previous s) x = Some y \<and> get2 (visited s) y \<and>
                 get2 (distances s) y = Some dy \<and> d = dy + value_at m x)"
    using assms(1) unfolding inv_opt_def by (rule conjunct1 [OF conjunct2])
  then show ?thesis using assms(2) assms(3) by blast
qed

lemma inv_opt_link:
  assumes "inv_opt rows cols m U s" and "inb rows cols x" and "get2 (visited s) x" and "x \<notin> U"
    and "inb rows cols y" and "link x y"
  shows "\<exists>dx dy. get2 (distances s) x = Some dx \<and> get2 (distances s) y = Some dy \<and>
            dy \<le> dx + value_at m y"
proof -
  have "\<forall>x y. inb rows cols x \<and> get2 (visited s) x \<and> x \<notin> U \<and> inb rows cols y \<and> link x y \<longrightarrow>
         (\<exists>dx dy. get2 (distances s) x = Some dx \<and> get2 (distances s) y = Some dy \<and>
            dy \<le> dx + value_at m y)"
    using assms(1) unfolding inv_opt_def by (rule conjunct2 [OF conjunct2])
  then show ?thesis using assms(2-6) by blast
qed

lemma inv_reach_visited:
  assumes "inv_reach rows cols s" and "inb rows cols x" and "get2 (visited s) x"
  shows "Suc (fst x) < rows"
proof -
  have "\<forall>x. inb rows cols x \<and> get2 (visited s) x \<longrightarrow>
         Suc (fst x) < rows \<and> get2 (distances s) x \<noteq> None"
    using assms(1) unfolding inv_reach_def by (rule conjunct1 [OF conjunct2 [OF conjunct2]])
  then show ?thesis using assms(2) assms(3) by blast
qed

lemma energy_snoc: "energy m (q @ [x]) = energy m q + value_at m x"
  by (simp add: energy_def)

text \<open>The walk back from a reached cell gives cells whose total energy is the cell's distance.\<close>

lemma trace_back_energy:
  assumes links: "\<forall>x y. inb rows cols x \<and> get2 prev x = Some y \<longrightarrow>
      link y x \<and> snd y < cols \<and> rooted cols prev y"
    and sums: "\<forall>x d. inb rows cols x \<and> get2 ds x = Some d \<longrightarrow>
      (if fst x = 0 then d = value_at m x
       else \<exists>y dy. get2 prev x = Some y \<and> get2 vis y \<and> get2 ds y = Some dy \<and> d = dy + value_at m x)"
    and x: "inb rows cols x" "get2 ds x = Some d"
  shows "\<exists>q. trace_back prev (get2 prev x) (x # acc) = Some (q @ acc) \<and> energy m q = d"
  using x
proof (induction "fst x" arbitrary: x d acc)
  case 0
  have "get2 prev x = None"
  proof (cases "get2 prev x")
    case (Some y)
    then have "link y x" using links "0.prems"(1) by blast
    then show ?thesis using "0.hyps" by (simp add: link_def)
  qed simp
  then have "trace_back prev (get2 prev x) (x # acc) = Some ([x] @ acc)"
    by (simp add: trace_back.simps)
  moreover have "if fst x = 0 then d = value_at m x
      else \<exists>y dy. get2 prev x = Some y \<and> get2 vis y \<and> get2 ds y = Some dy \<and> d = dy + value_at m x"
    using sums "0.prems" by blast
  then have "d = value_at m x"
    using "0.hyps" by simp
  ultimately show ?case
    by (intro exI [of _ "[x]"]) (simp add: energy_def)
next
  case (Suc n)
  have "if fst x = 0 then d = value_at m x
      else \<exists>y dy. get2 prev x = Some y \<and> get2 vis y \<and> get2 ds y = Some dy \<and> d = dy + value_at m x"
    using sums Suc.prems by blast
  moreover have "fst x \<noteq> 0" using Suc.hyps(2) by simp
  ultimately obtain y dy where y: "get2 prev x = Some y" "get2 ds y = Some dy" "d = dy + value_at m x"
    by auto
  then have ly: "link y x" "snd y < cols"
    using links Suc.prems(1) by blast+
  then have fy: "n = fst y" using Suc.hyps(2) by (simp add: link_def)
  have "inb rows cols y"
    using ly Suc.prems(1) by (simp add: inb_def link_def)
  from Suc.hyps(1) [OF fy this y(2), of "x # acc"]
  obtain q where q: "trace_back prev (get2 prev y) (y # x # acc) = Some (q @ x # acc)" "energy m q = dy"
    by blast
  have "trace_back prev (get2 prev x) (x # acc) = trace_back prev (get2 prev y) (y # x # acc)"
    unfolding y(1) by (subst trace_back.simps) (simp add: get2_def)
  then have "trace_back prev (get2 prev x) (x # acc) = Some ((q @ [x]) @ acc)"
    using q(1) by simp
  moreover have "energy m (q @ [x]) = d"
    using q(2) y(3) by (simp add: energy_snoc)
  ultimately show ?case by blast
qed

lemma walk_snocD: "walk (q @ [x]) \<Longrightarrow> q \<noteq> [] \<Longrightarrow> walk q \<and> link (last q) x"
proof (induction q rule: walk.induct)
  case (3 y z p)
  then show ?case by (cases p) auto
qed simp_all

text \<open>
  Every walk from the start cell either costs at least some queue entry's distance, or ends in
  a visited cell and costs at least that cell's distance.
\<close>

lemma walk_bound:
  assumes re: "inv_reach rows cols s" and opt: "inv_opt rows cols m {} s"
    and nonneg: "\<forall>x. 0 \<le> value_at m x"
    and q: "q \<noteq> []" "walk q" "hd q = (0, cols div 2)" "\<forall>y\<in>set q. inb rows cols y"
  shows "(\<exists>e\<in>set (queue s). distance e \<le> energy m q) \<or>
         (get2 (visited s) (last q) \<and> (\<exists>d. get2 (distances s) (last q) = Some d \<and> d \<le> energy m q))"
  using q
proof (induction q rule: rev_induct)
  case Nil
  then show ?case by simp
next
  case (snoc w q)
  have w: "inb rows cols w" using snoc.prems(4) by simp
  have found: "(\<exists>e\<in>set (queue s). distance e \<le> b) \<or>
      (get2 (visited s) w \<and> (\<exists>d. get2 (distances s) w = Some d \<and> d \<le> b))"
    if "get2 (distances s) w = Some dw" "dw \<le> b" for dw b
  proof (cases "get2 (visited s) w")
    case True
    then show ?thesis using that by blast
  next
    case False
    then have "\<exists>e\<in>set (queue s). pos e = w \<and> distance e = dw"
      using re w that(1) unfolding inv_reach_def by blast
    then show ?thesis using that(2) by blast
  qed
  show ?case
  proof (cases "q = []")
    case True
    then have start: "w = (0, cols div 2)" using snoc.prems(3) by simp
    then obtain dw where dw: "get2 (distances s) w = Some dw"
      using re unfolding inv_reach_def by auto
    then have "dw = value_at m w"
      using inv_opt_sums [OF opt w dw] start by simp
    then show ?thesis
      using found [OF dw, of "energy m [w]"] True by (simp add: energy_def)
  next
    case False
    then have wq: "walk q" "link (last q) w"
      using walk_snocD [OF snoc.prems(2)] by simp_all
    have "hd q = (0, cols div 2)" "\<forall>y\<in>set q. inb rows cols y"
      using snoc.prems(3) snoc.prems(4) False by simp_all
    from snoc.IH [OF False wq(1) this]
    show ?thesis
    proof
      assume "\<exists>e\<in>set (queue s). distance e \<le> energy m q"
      then obtain e where e: "e \<in> set (queue s)" "distance e \<le> energy m q" by blast
      have "0 \<le> value_at m w" using nonneg by blast
      then have "energy m q \<le> energy m (q @ [w])"
        by (simp add: energy_snoc)
      then have "distance e \<le> energy m (q @ [w])" using e(2) by linarith
      then show ?thesis using e(1) by blast
    next
      assume a: "get2 (visited s) (last q) \<and> (\<exists>d. get2 (distances s) (last q) = Some d \<and> d \<le> energy m q)"
      then obtain d where d: "get2 (distances s) (last q) = Some d" "d \<le> energy m q" by blast
      have "inb rows cols (last q)" using snoc.prems(4) False by simp
      then obtain dw where dw: "get2 (distances s) w = Some dw" "dw \<le> d + value_at m w"
        using inv_opt_link [OF opt _ _ _ w wq(2)] a d(1) by fastforce
      then have "dw \<le> energy m (q @ [w])" using d(2) by (simp add: energy_snoc)
      then show ?thesis using found [OF dw(1)] by simp
    qed
  qed
qed

lemma seam_inb:
  assumes "seam rows cols q" and "0 < cols"
  shows "\<forall>y\<in>set q. inb rows cols y"
proof
  fix y assume y: "y \<in> set q"
  then have "fst y \<in> set (map fst q)" by simp
  then have "fst y < rows" using seam_rows(2) [OF assms(1)] by simp
  moreover have "snd y < cols" using assms y by (simp add: seam_def)
  ultimately show "inb rows cols y" by (simp add: inb_def)
qed

lemma pathfind_loop_least:
  assumes g: "grid rows cols m" and nonneg: "\<forall>x. 0 \<le> value_at m x" and cols: "0 < cols"
    and inv: "inv_struct rows cols s" "inv_reach rows cols s" "inv_opt rows cols m {} s"
    and res: "pathfind_loop m rows cols s = Some (Some p)"
    and q: "seam rows cols q"
  shows "energy m p \<le> energy m q"
proof -
  let ?I = "\<lambda>s. inv_struct rows cols s \<and> inv_reach rows cols s \<and> inv_opt rows cols m {} s"
  let ?Q = "\<lambda>res. \<forall>p. res = Some (Some p) \<longrightarrow> energy m p \<le> energy m q"
  have "?Q (pathfind_loop m rows cols s)"
  proof (rule pathfind_loop_rule [where I = ?I and Q = ?Q])
    show "?I s" using inv by simp
  next
    fix s assume "?I s" "queue s \<noteq> []" "get2 (visited s) (pos (front s))"
    then show "?I (popped s)"
      using inv_struct_popped inv_reach_popped inv_opt_popped by blast
  next
    fix s assume I: "?I s" and ne: "queue s \<noteq> []" and nv: "\<not> get2 (visited s) (pos (front s))"
      and more: "Suc (row (front s)) \<noteq> rows"
    have fed: "inv_fed rows cols {} s"
      using I unfolding inv_fed_def inv_opt_def by blast
    show "?I (neighbours m rows cols (front s) (marked s))"
      using inv_struct_step [OF _ ne] reach_step(1) [OF g _ _ fed ne more]
        opt_step [OF g nonneg _ _ _ ne nv more] I by blast
  next
    fix s assume I: "?I s" and ne: "queue s \<noteq> []" and nv: "\<not> get2 (visited s) (pos (front s))"
      and last: "Suc (row (front s)) = rows"
    have links: "\<forall>x y. inb rows cols x \<and> get2 (previous s) x = Some y \<longrightarrow>
        link y x \<and> snd y < cols \<and> rooted cols (previous s) y"
      using I unfolding inv_struct_def by blast
    have sums: "\<forall>x d. inb rows cols x \<and> get2 (distances s) x = Some d \<longrightarrow>
      (if fst x = 0 then d = value_at m x
       else \<exists>y dy. get2 (previous s) x = Some y \<and> get2 (visited s) y \<and>
              get2 (distances s) y = Some dy \<and> d = dy + value_at m x)"
      using I unfolding inv_opt_def by blast
    have fr: "inb rows cols (pos (front s))"
      using inv_struct_front [OF _ ne] I by blast
    have d: "get2 (distances s) (pos (front s)) = Some (distance (front s))"
      using front_distance [OF _ _ ne nv] I by blast
    from trace_back_energy [OF links sums fr d, of "[]"]
    obtain p' where p': "trace_back (previous s) (get2 (previous s) (pos (front s))) [pos (front s)] = Some p'"
      "energy m p' = distance (front s)"
      by auto
    have qi: "\<forall>y\<in>set q. inb rows cols y" using q cols by (rule seam_inb)
    have qs: "q \<noteq> []" "walk q" "hd q = (0, cols div 2)" "Suc (fst (last q)) = rows"
      using q by (simp_all add: seam_def)
    have "inb rows cols (last q)" using qi qs(1) by simp
    then have "\<not> get2 (visited s) (last q)"
      using inv_reach_visited [of rows cols s "last q"] I qs(4) by auto
    then obtain e where "e \<in> set (queue s)" "distance e \<le> energy m q"
      using walk_bound [OF _ _ nonneg qs(1,2,3) qi, of s] I by blast
    then have "distance (front s) \<le> energy m q"
      using front_least [of e s] by simp
    then show "?Q (map_option Some
        (trace_back (previous s) (get2 (previous s) (pos (front s))) [pos (front s)]))"
      using p' by simp
  qed simp
  then show ?thesis using res by blast
qed

text \<open>The specification's words: the total energy of a seam on a grid of numbers.\<close>

definition seam_energy :: "int list list \<Rightarrow> coords list \<Rightarrow> int" where
  "seam_energy g p = sum_list (map (\<lambda>y. g ! fst y ! snd y) p)"

lemma value_at_numbers:
  assumes "inb (length g) cols x" and "\<forall>r\<in>set g. length r = cols"
  shows "value_at (map (map Some) g) x = g ! fst x ! snd x"
proof -
  have "fst x < length g" "snd x < length (g ! fst x)"
    using assms by (simp_all add: inb_def)
  then show ?thesis
    by (simp add: value_at_def cell_def)
qed

lemma value_at_nonneg:
  assumes "\<forall>r\<in>set g. length r = cols \<and> (\<forall>v\<in>set r. 0 \<le> v)"
  shows "0 \<le> value_at (map (map Some) g) x"
proof (cases "fst x < length g \<and> snd x < length (g ! fst x)")
  case True
  then have "g ! fst x \<in> set g" "g ! fst x ! snd x \<in> set (g ! fst x)" by simp_all
  then have "0 \<le> g ! fst x ! snd x" using assms by blast
  then show ?thesis using True by (simp add: value_at_def cell_def)
next
  case False
  then show ?thesis by (auto simp: value_at_def cell_def)
qed

lemma energy_numbers:
  assumes "\<forall>y\<in>set q. inb (length g) cols y" and "\<forall>r\<in>set g. length r = cols"
  shows "energy (map (map Some) g) q = seam_energy g q"
proof -
  have "map (value_at (map (map Some) g)) q = map (\<lambda>y. g ! fst y ! snd y) q"
    using assms by (intro map_cong refl value_at_numbers) blast+
  then show ?thesis by (simp only: energy_def seam_energy_def)
qed

lemma grid_numbers:
  assumes "\<forall>r\<in>set g. length r = cols"
  shows "grid (length g) cols (map (map Some) g)"
  using assms by (simp add: grid_def)

lemma seam_energy_le:
  assumes "\<forall>y\<in>set q. inb (length g) cols y"
    and "\<forall>r\<in>set g. length r = cols \<and> (\<forall>v\<in>set r. 0 \<le> v \<and> v \<le> b)"
  shows "seam_energy g q \<le> int (length q) * b"
  using assms(1)
proof (induction q)
  case Nil
  then show ?case by (simp add: seam_energy_def)
next
  case (Cons y q)
  have "fst y < length g" "snd y < cols" using Cons.prems by (simp_all add: inb_def)
  then have "g ! fst y \<in> set g" "snd y < length (g ! fst y)" using assms(2) by simp_all
  then have "g ! fst y ! snd y \<in> set (g ! fst y)" by simp
  then have "g ! fst y ! snd y \<le> b" using assms(2) \<open>g ! fst y \<in> set g\<close> by blast
  moreover have "seam_energy g q \<le> int (length q) * b" using Cons by simp
  ultimately show ?case by (simp add: seam_energy_def algebra_simps)
qed

text \<open>
  C3. For a grid of \<open>H\<close> rows of \<open>W > 0\<close> numbers, none of them negative and each at most \<open>b\<close>,
  with \<open>H * b < 2 ^ 53\<close>, on which \<^verbatim>\<open>pathfind\<close> returns a seam: the returned seam is a path from
  \<open>(0, W div 2)\<close> to the last row that steps from \<open>(row, col)\<close> to \<open>(row + 1, col - 1)\<close> or
  \<open>(row + 1, col + 1)\<close> inside the grid, and its total energy is at most the total energy of every
  such path: it is the least total energy. The bound keeps every sum along a path, and so every
  \<^verbatim>\<open>newDistance\<close> of the search, below \<open>2 ^ 53\<close>, where the doubles that the code adds are the
  integers that the model adds. (An energy grid built from 8-bit samples has \<open>b = 765\<close>.)
\<close>

theorem pathfind_least_energy:
  assumes "length g = rows" and "0 < cols"
    and "\<forall>r\<in>set g. length r = cols \<and> (\<forall>v\<in>set r. 0 \<le> v \<and> v \<le> b)"
    and "int rows * b < 2 ^ 53"
    and "pathfind (map (map Some) g) = Some (Inr (Some p))"
  shows "seam rows cols p \<and>
         (\<forall>q. seam rows cols q \<longrightarrow>
            seam_energy g p \<le> seam_energy g q \<and> seam_energy g q < 2 ^ 53)"
proof -
  let ?m = "map (map Some) g"
  have len: "\<forall>r\<in>set g. length r = cols" using assms(3) by blast
  have pos: "\<forall>r\<in>set g. length r = cols \<and> (\<forall>v\<in>set r. 0 \<le> v)" using assms(3) by blast
  have g: "grid rows cols ?m" using grid_numbers [OF len] assms(1) by simp
  have "?m \<noteq> []" using assms(5) by (auto simp: pathfind_def)
  then have rows: "0 < rows" using assms(1) by auto
  have dims: "length ?m = rows" "length (?m ! 0) = cols"
    using grid_dims [OF g rows] by simp_all
  have p: "seam rows cols p"
    using pathfind_seam [OF assms(5)] dims by simp
  have "cols div 2 < cols" using assms(2) by simp
  then obtain d0 where d0: "cell ?m 0 (cols div 2) = Some d0"
    using grid_cell [OF g rows] by blast
  then have d0': "cell ?m 0 (length (?m ! 0) div 2) = Some d0"
    using dims by simp
  have started: "pathfind ?m = map_option Inr (pathfind_loop ?m rows cols (initial rows cols d0))"
    using pathfind_started(2) [OF d0'] unfolding dims .
  have run: "pathfind_loop ?m rows cols (initial rows cols d0) = Some (Some p)"
  proof (cases "pathfind_loop ?m rows cols (initial rows cols d0)")
    case None
    then show ?thesis using started assms(5) by simp
  next
    case (Some r)
    then show ?thesis using started assms(5) by simp
  qed
  have nonneg: "\<forall>x. 0 \<le> value_at ?m x"
    using value_at_nonneg [OF pos] by blast
  have "seam_energy g p \<le> seam_energy g q \<and> seam_energy g q < 2 ^ 53"
    if q: "seam rows cols q" for q
  proof -
    have qi: "\<forall>y\<in>set q. inb (length g) cols y"
      using seam_inb [OF q assms(2)] assms(1) by simp
    have "energy ?m p \<le> energy ?m q"
      using pathfind_loop_least [OF g nonneg assms(2) inv_struct_initial [OF rows assms(2)]
          inv_reach_initial(1) [OF rows assms(2)] inv_opt_initial [OF rows assms(2) d0] run q] .
    moreover have "energy ?m p = seam_energy g p"
      using energy_numbers [OF _ len, of p] seam_inb [OF p assms(2)] assms(1) by simp
    moreover have "energy ?m q = seam_energy g q"
      using energy_numbers [OF qi len] by simp
    moreover have "seam_energy g q \<le> int rows * b"
      using seam_energy_le [OF qi assms(3)] seam_rows(1) [OF q] by simp
    ultimately show ?thesis using assms(4) by simp
  qed
  then show ?thesis using p by blast
qed

theorem pathfind_least_energy_witness:
  "length [[5, 1, 5], [1, 9, 9], [9, 0, 9 :: int]] = 3 \<and> (0 :: nat) < 3 \<and>
   int 3 * 9 < (2 :: int) ^ 53 \<and>
   pathfind (map (map Some) [[5, 1, 5], [1, 9, 9], [9, 0, 9]]) = Some (Inr (Some [(0, 1), (1, 0), (2, 1)])) \<and>
   seam 3 3 [(0, 1), (1, 0), (2, 1)] \<and> seam 3 3 [(0, 1), (1, 2), (2, 1)] \<and>
   seam_energy [[5, 1, 5], [1, 9, 9], [9, 0, 9]] [(0, 1), (1, 0), (2, 1)] = 2 \<and>
   seam_energy [[5, 1, 5], [1, 9, 9], [9, 0, 9]] [(0, 1), (1, 2), (2, 1)] = 10 \<and>
   seam_energy [[5, 1, 5], [1, 9, 9], [9, 0, 9]] [(0, 1), (1, 0), (2, 1)]
     \<le> seam_energy [[5, 1, 5], [1, 9, 9], [9, 0, 9]] [(0, 1), (1, 2), (2, 1)] \<and>
   seam_energy [[5, 1, 5], [1, 9, 9], [9, 0, 9]] [(0, 1), (1, 2), (2, 1)] < 2 ^ 53"
proof -
  let ?g = "[[5, 1, 5], [1, 9, 9], [9, 0, 9 :: int]]"
  let ?p = "[(0, 1), (1, 0), (2, 1)] :: coords list"
  let ?q = "[(0, 1), (1, 2), (2, 1)] :: coords list"
  have l: "length ?g = 3" "(0 :: nat) < 3" by simp_all
  have n: "\<forall>r\<in>set ?g. length r = 3 \<and> (\<forall>v\<in>set r. 0 \<le> v \<and> v \<le> 9)" by simp
  have b: "int 3 * 9 < (2 :: int) ^ 53" by simp
  have run: "pathfind (map (map Some) ?g) = Some (Inr (Some ?p))" by code_simp
  have q: "seam 3 3 ?q" by (simp add: seam_def link_def)
  have ep: "seam_energy ?g ?p = 2" by (simp add: seam_energy_def)
  have eq: "seam_energy ?g ?q = 10" by (simp add: seam_energy_def)
  from pathfind_least_energy [OF l n b run]
  have "seam 3 3 ?p" "seam_energy ?g ?p \<le> seam_energy ?g ?q" "seam_energy ?g ?q < 2 ^ 53"
    using q by blast+
  then show ?thesis
    using l b run q ep eq by (intro conjI)
qed

end
